theory Spec2Isabelle
  imports Main
begin

section \<open>JavaScript values used by the stream handler\<close>

text \<open>
  The handler of \<open>GET /stream\<close> in \<open>watchify_server.mjs\<close> computes with JavaScript
  numbers and strings. A JavaScript number is a double. Every integer of magnitude at most
  \<open>2 ^ 53 - 1\<close> (\<open>Number.MAX_SAFE_INTEGER\<close>) is a double, and a sum or a difference of
  two such integers that stays in this range is computed exactly. The model keeps exactly
  these numbers, as \<open>Num\<close>, and \<open>NaN\<close>. For any other number (a rounded one, an infinity)
  it keeps no value: \<open>Outside\<close> stands for a result that the model does not determine,
  and nothing is claimed about its digits.

  A string is a list of 8-bit characters, which is what Node hands to the handler for a
  header value (header bytes are decoded as Latin-1).
\<close>

datatype jsnum = Num int | NaN | Outside

definition MAX_SAFE_INTEGER :: int where
  "MAX_SAFE_INTEGER = 2 ^ 53 - 1"

text \<open>The number with the mathematical value \<open>i\<close>, when the model keeps it.\<close>

definition js_num :: "int \<Rightarrow> jsnum" where
  "js_num i = (if \<bar>i\<bar> \<le> MAX_SAFE_INTEGER then Num i else Outside)"

text \<open>
  \<open>+\<close> and \<open>-\<close> on numbers. \<open>NaN\<close> with anything is \<open>NaN\<close>. The sum or difference of
  two safe integers is exact when it is a safe integer; any other result is undetermined.
\<close>

fun js_add :: "jsnum \<Rightarrow> jsnum \<Rightarrow> jsnum" where
  "js_add NaN _ = NaN"
| "js_add _ NaN = NaN"
| "js_add (Num a) (Num b) =
     (if \<bar>a\<bar> \<le> MAX_SAFE_INTEGER \<and> \<bar>b\<bar> \<le> MAX_SAFE_INTEGER then js_num (a + b) else Outside)"
| "js_add _ _ = Outside"

fun js_sub :: "jsnum \<Rightarrow> jsnum \<Rightarrow> jsnum" where
  "js_sub NaN _ = NaN"
| "js_sub _ NaN = NaN"
| "js_sub (Num a) (Num b) =
     (if \<bar>a\<bar> \<le> MAX_SAFE_INTEGER \<and> \<bar>b\<bar> \<le> MAX_SAFE_INTEGER then js_num (a - b) else Outside)"
| "js_sub _ _ = Outside"

definition digit_char :: "nat \<Rightarrow> char" where
  "digit_char d = ''0123456789'' ! d"

fun show_nat :: "nat \<Rightarrow> string" where
  "show_nat n = (if n < 10 then [digit_char n] else show_nat (n div 10) @ [digit_char (n mod 10)])"

declare show_nat.simps [simp del]

text \<open>
  \<open>String(x)\<close>, as a template literal applies it: the decimal digits of a safe integer,
  \<open>NaN\<close> for \<open>NaN\<close>. Beyond the safe integers JavaScript prints the shortest digits that
  read back as the same double, and an exponent from \<open>1e21\<close> on; the model gives no string
  there.
\<close>

fun js_toString :: "jsnum \<Rightarrow> string option" where
  "js_toString NaN = Some ''NaN''"
| "js_toString (Num i) =
     (if \<bar>i\<bar> \<le> MAX_SAFE_INTEGER
      then Some (if i < 0 then CHR ''-'' # show_nat (nat (- i)) else show_nat (nat i))
      else None)"
| "js_toString Outside = None"

text \<open>
  The white space that \<open>parseInt\<close> skips, among the characters a header value can hold:
  TAB, LF, VT, FF, CR, SP and NBSP.
\<close>

definition is_space :: "char \<Rightarrow> bool" where
  "is_space c = ((of_char c :: nat) \<in> {9, 10, 11, 12, 13, 32, 160})"

definition is_digit :: "char \<Rightarrow> bool" where
  "is_digit c = (48 \<le> (of_char c :: nat) \<and> (of_char c :: nat) \<le> 57)"

definition digit_val :: "char \<Rightarrow> nat" where
  "digit_val c = of_char c - 48"

definition digits_val :: "string \<Rightarrow> nat" where
  "digits_val ds = foldl (\<lambda>acc c. 10 * acc + digit_val c) 0 ds"

text \<open>
  \<open>parseInt(s, 10)\<close>: skip leading white space, read an optional sign, then the longest
  prefix of decimal digits; \<open>NaN\<close> when there is no digit. What follows the digits is
  ignored. The result is the number nearest to the value of the digits: that value itself
  when it is a safe integer, and otherwise a number that the model does not determine.
\<close>

definition parseInt :: "string \<Rightarrow> jsnum" where
  "parseInt s =
     (let t = dropWhile is_space s;
          (neg, u) = (case t of
                        c # cs \<Rightarrow> if c = CHR ''-'' then (True, cs)
                                  else if c = CHR ''+'' then (False, cs)
                                  else (False, t)
                      | [] \<Rightarrow> (False, t));
          ds = takeWhile is_digit u
      in if ds = [] then NaN
         else if neg then js_num (- int (digits_val ds)) else js_num (int (digits_val ds)))"

fun startsWith :: "string \<Rightarrow> string \<Rightarrow> bool" where
  "startsWith s [] = True"
| "startsWith [] (p # ps) = False"
| "startsWith (c # cs) (p # ps) = (c = p \<and> startsWith cs ps)"

definition endsWith :: "string \<Rightarrow> string \<Rightarrow> bool" where
  "endsWith s suf = startsWith (rev s) (rev suf)"

text \<open>\<open>s.replace(/pat/, rep)\<close> for a literal pattern: the first occurrence only.\<close>

fun replace_first :: "string \<Rightarrow> string \<Rightarrow> string \<Rightarrow> string" where
  "replace_first pat rep [] = (if pat = [] then rep else [])"
| "replace_first pat rep (c # cs) =
     (if startsWith (c # cs) pat then rep @ drop (length pat) (c # cs)
      else c # replace_first pat rep cs)"

text \<open>\<open>s.split(sep)\<close> for a one-character separator: never an empty list.\<close>

fun split_on :: "char \<Rightarrow> string \<Rightarrow> string list" where
  "split_on sep [] = [[]]"
| "split_on sep (c # cs) =
     (if c = sep then [] # split_on sep cs
      else (case split_on sep cs of p # ps \<Rightarrow> (c # p) # ps | [] \<Rightarrow> [[c]]))"

section \<open>Files, responses and the two response modes\<close>

record torrent_file =
  name :: string
  file_length :: nat

datatype read_opts = NoOpts | StartEnd jsnum jsnum

text \<open>
  The value of a response header: a string, a number, or \<open>HOutside\<close> for a string built
  from a number whose digits the model does not determine.
\<close>

datatype hvalue = HStr string | HNum jsnum | HOutside

datatype body = Json "(string \<times> string) list" | Piped read_opts

record response =
  status :: nat
  headers :: "(string \<times> hvalue) list"
  body :: body

text \<open>The predicate of \<open>torrent.files.find\<close>, lines 85 to 89.\<close>

definition playable :: "torrent_file \<Rightarrow> bool" where
  "playable f = (endsWith (name f) ''.mp4'' \<or> endsWith (name f) ''.mkv'' \<or> endsWith (name f) ''.avi'')"

definition find_playable :: "torrent_file list \<Rightarrow> torrent_file option" where
  "find_playable fs = find playable fs"

text \<open>Lines 99 to 102: the parts of the header, and the three numbers derived from them.\<close>

definition range_parts :: "string \<Rightarrow> string list" where
  "range_parts r = split_on CHR ''-'' (replace_first ''bytes='' [] r)"

definition range_start :: "string \<Rightarrow> jsnum" where
  "range_start r = (case range_parts r of p0 # _ \<Rightarrow> parseInt p0 | [] \<Rightarrow> NaN)"

text \<open>
  \<open>parts[1]\<close> is \<open>undefined\<close> when the header has no dash and the empty string when
  nothing follows the first dash; both are falsy and select \<open>fileSize - 1\<close>.
\<close>

definition range_end :: "nat \<Rightarrow> string \<Rightarrow> jsnum" where
  "range_end fileSize r =
     (case range_parts r of
        _ # p1 # _ \<Rightarrow> if p1 \<noteq> [] then parseInt p1 else js_sub (Num (int fileSize)) (Num 1)
      | _ \<Rightarrow> js_sub (Num (int fileSize)) (Num 1))"

definition chunkSize :: "nat \<Rightarrow> string \<Rightarrow> jsnum" where
  "chunkSize fileSize r = js_add (js_sub (range_end fileSize r) (range_start r)) (Num 1)"

text \<open>
  The template literal of line 105. The length of a file is the number the engine reports
  for it; it is taken as it is and printed in decimal, which is what JavaScript prints for
  a length below \<open>2 ^ 53\<close>.
\<close>

definition content_range :: "jsnum \<Rightarrow> jsnum \<Rightarrow> nat \<Rightarrow> hvalue" where
  "content_range start end fileSize =
     (case (js_toString start, js_toString end) of
        (Some a, Some b) \<Rightarrow> HStr (''bytes '' @ a @ ''-'' @ b @ ''/'' @ show_nat fileSize)
      | _ \<Rightarrow> HOutside)"

text \<open>Lines 104 to 114: the partial-content response.\<close>

definition range_response :: "torrent_file \<Rightarrow> string \<Rightarrow> response" where
  "range_response f r =
     (let fileSize = file_length f;
          start = range_start r;
          end = range_end fileSize r
      in \<lparr>status = 206,
          headers =
            [(''Content-Range'', content_range start end fileSize),
             (''Accept-Ranges'', HStr ''bytes''),
             (''Content-Length'', HNum (chunkSize fileSize r)),
             (''Content-Type'', HStr ''video/mp4'')],
          body = Piped (StartEnd start end)\<rparr>)"

text \<open>Lines 132 to 138: the full-content response.\<close>

definition full_response :: "torrent_file \<Rightarrow> response" where
  "full_response f =
     \<lparr>status = 200,
      headers =
        [(''Content-Length'', HNum (Num (int (file_length f)))),
         (''Content-Type'', HStr ''video/mp4''),
         (''Accept-Ranges'', HStr ''bytes'')],
      body = Piped NoOpts\<rparr>"

text \<open>
  \<open>if (range)\<close>, line 98: a header that is absent (\<open>undefined\<close>) or empty is falsy and
  takes the full-content branch.
\<close>

definition stream_response :: "torrent_file \<Rightarrow> string option \<Rightarrow> response" where
  "stream_response f rng =
     (case rng of
        Some r \<Rightarrow> if r \<noteq> [] then range_response f r else full_response f
      | None \<Rightarrow> full_response f)"

definition json_error :: "nat \<Rightarrow> string \<Rightarrow> response" where
  "json_error code msg = \<lparr>status = code, headers = [], body = Json [(''error'', msg)]\<rparr>"

section \<open>The engine, the cache table and the timers\<close>

text \<open>
  Torrent objects live in a store and are named by their address, so that two sessions of
  the same content are told apart. \<open>error_listeners\<close> counts the listeners that line 153
  has registered on the object.
\<close>

type_synonym tid = nat
type_synonym rid = nat

record torrent =
  infoHash :: string
  ready :: bool
  destroyed :: bool
  files :: "torrent_file list"
  error_listeners :: nat

text \<open>A value of the \<open>activeTorrents\<close> map, line 176: the session and its timer handle.\<close>

record entry =
  torrent :: tid
  timeout :: nat

text \<open>A pending \<open>setTimeout\<close>: its handle, when it is due, and the torrent its closure holds.\<close>

record timer =
  timer_id :: nat
  deadline :: nat
  target :: tid

text \<open>The read stream of one request, with the torrent the request's closures hold.\<close>

record stream =
  source :: tid
  stream_destroyed :: bool

text \<open>A handler suspended at the \<open>await\<close> of line 71 (\<open>OnTorrent\<close>) or of line 79.\<close>

datatype await = OnTorrent | OnceReady

record pending =
  p_rid :: rid
  p_torrent :: tid
  p_await :: await
  p_range :: "string option"

text \<open>
  The state of the server: the clock in milliseconds; the store of torrent objects and the
  next free address; the client's list of torrents and the number of calls of
  \<open>client.add\<close> so far; the \<open>activeTorrents\<close> map of line 11; the pending timers and the
  next free handle; the number of the next request; the suspended handlers; the response
  of each request that has one; the read stream of each request that opened one.
\<close>

record state =
  now :: nat
  heap :: "tid \<Rightarrow> torrent"
  next_tid :: nat
  client_torrents :: "tid list"
  add_calls :: nat
  activeTorrents :: "string \<rightharpoonup> entry"
  timers :: "timer list"
  next_timer :: nat
  next_rid :: nat
  waiting :: "pending list"
  responses :: "rid \<rightharpoonup> response"
  streams :: "rid \<rightharpoonup> stream"

definition TORRENT_TTL :: nat where
  "TORRENT_TTL = 10 * 60 * 1000"

definition init :: state where
  "init = \<lparr>now = 0,
           heap = (\<lambda>_. \<lparr>infoHash = [], ready = False, destroyed = False, files = [],
                         error_listeners = 0\<rparr>),
           next_tid = 0, client_torrents = [], add_calls = 0,
           activeTorrents = Map.empty, timers = [], next_timer = 0, next_rid = 0,
           waiting = [], responses = Map.empty, streams = Map.empty\<rparr>"

subsection \<open>The WebTorrent client\<close>

text \<open>
  The client is a library the server imports; the server relies on three of its
  operations. They are modelled by their contract: the client keeps the list of its
  torrents; \<open>client.get(id)\<close> returns the torrent of that list whose info hash is the one
  of the identifier, or \<open>null\<close>; \<open>client.add(id, cb)\<close> puts a new torrent, not yet ready,
  on the list and calls \<open>cb\<close> once it is ready; \<open>torrent.destroy()\<close> marks the torrent
  destroyed and takes it off the list. The function \<open>ih\<close> from identifiers to info hashes
  is the engine's and stays a parameter. \<open>add_calls\<close> counts the calls of \<open>client.add\<close>.
\<close>

definition client_get :: "(string \<Rightarrow> string) \<Rightarrow> string \<Rightarrow> state \<Rightarrow> tid option" where
  \<comment> \<open>Modelled from the spec: the Swarm Engine is the imported WebTorrent library, whose
      code is not in the repository; this is its lookup of a session by content identifier.\<close>
  "client_get ih magnet s = find (\<lambda>t. infoHash (heap s t) = ih magnet) (client_torrents s)"

definition client_add :: "(string \<Rightarrow> string) \<Rightarrow> string \<Rightarrow> state \<Rightarrow> tid \<times> state" where
  \<comment> \<open>Modelled from the spec: the Swarm Engine's creation of a session for a content
      identifier; the session is not ready and has no file list until the engine says so.\<close>
  "client_add ih magnet s =
     (let t = next_tid s
      in (t, s\<lparr>heap := (heap s)(t := \<lparr>infoHash = ih magnet, ready = False, destroyed = False,
                                      files = [], error_listeners = 0\<rparr>),
               next_tid := t + 1,
               client_torrents := client_torrents s @ [t],
               add_calls := add_calls s + 1\<rparr>))"

definition torrent_destroy :: "tid \<Rightarrow> state \<Rightarrow> state" where
  \<comment> \<open>Modelled from the spec: the Swarm Engine terminates the session.\<close>
  "torrent_destroy t s =
     s\<lparr>heap := (heap s)(t := (heap s t)\<lparr>destroyed := True\<rparr>),
       client_torrents := removeAll t (client_torrents s)\<rparr>"

subsection \<open>keepTorrentAlive and the timer callback\<close>

definition clearTimeout :: "nat \<Rightarrow> timer list \<Rightarrow> timer list" where
  "clearTimeout h ts = filter (\<lambda>tm. timer_id tm \<noteq> h) ts"

text \<open>
  Lines 161 to 177. A \<open>Timeout\<close> object is truthy, so \<open>existing && existing.timeout\<close>
  tests only whether the map has the key.
\<close>

definition keepTorrentAlive :: "tid \<Rightarrow> state \<Rightarrow> state" where
  "keepTorrentAlive t s =
     (let k = infoHash (heap s t);
          ts = (case activeTorrents s k of
                  Some existing \<Rightarrow> clearTimeout (timeout existing) (timers s)
                | None \<Rightarrow> timers s);
          h = next_timer s
      in s\<lparr>timers := ts @ [\<lparr>timer_id = h, deadline = now s + TORRENT_TTL, target = t\<rparr>],
           next_timer := h + 1,
           activeTorrents := (activeTorrents s)(k \<mapsto> \<lparr>torrent = t, timeout = h\<rparr>)\<rparr>)"

text \<open>Lines 169 to 173, the callback of the timer.\<close>

definition on_timeout :: "tid \<Rightarrow> state \<Rightarrow> state" where
  "on_timeout t s =
     (let s1 = (if \<not> destroyed (heap s t) then torrent_destroy t s else s)
      in s1\<lparr>activeTorrents := (activeTorrents s1)(infoHash (heap s1 t) := None)\<rparr>)"

text \<open>
  Time passes by \<open>d\<close> milliseconds: the timers that are due leave the pending list and
  their callbacks run, oldest first. Every timer is armed for the same duration, so the
  list is in the order of the deadlines. A timer fires as soon as the clock reaches its
  deadline; the delay Node may add is left out.
\<close>

definition elapse :: "nat \<Rightarrow> state \<Rightarrow> state" where
  "elapse d s =
     (let t' = now s + d;
          due = filter (\<lambda>tm. deadline tm \<le> t') (timers s)
      in fold (\<lambda>tm. on_timeout (target tm)) due
           (s\<lparr>now := t', timers := filter (\<lambda>tm. \<not> deadline tm \<le> t') (timers s)\<rparr>))"

subsection \<open>The handler of GET /stream\<close>

text \<open>
  Lines 82 to 157, the part of the handler after its last \<open>await\<close>: it runs to its end
  without interruption. The request is \<open>r\<close>, the torrent it holds is \<open>t\<close>.
\<close>

definition serve :: "rid \<Rightarrow> tid \<Rightarrow> string option \<Rightarrow> state \<Rightarrow> state" where
  "serve r t rng s =
     (let s1 = keepTorrentAlive t s
      in case find_playable (files (heap s1 t)) of
           None \<Rightarrow>
             s1\<lparr>responses := (responses s1)(r \<mapsto> json_error 404 ''No video file found in torrent.'')\<rparr>
         | Some f \<Rightarrow>
             s1\<lparr>responses := (responses s1)(r \<mapsto> stream_response f rng),
                streams := (streams s1)(r \<mapsto> \<lparr>source = t, stream_destroyed = False\<rparr>),
                heap := (heap s1)(t := (heap s1 t)\<lparr>error_listeners :=
                                                    error_listeners (heap s1 t) + 1\<rparr>)\<rparr>)"

definition suspend :: "rid \<Rightarrow> tid \<Rightarrow> await \<Rightarrow> string option \<Rightarrow> state \<Rightarrow> state" where
  "suspend r t a rng s =
     s\<lparr>waiting := waiting s @ [\<lparr>p_rid = r, p_torrent = t, p_await = a, p_range = rng\<rparr>]\<rparr>"

text \<open>
  Lines 62 to 80, from the arrival of a request to the first \<open>await\<close> or, when the torrent
  is there and ready, straight on to the end. \<open>magnet\<close> and \<open>rng\<close> are
  \<open>req.query.magnet\<close> and \<open>req.headers.range\<close>, \<open>None\<close> for \<open>undefined\<close>.
\<close>

definition request :: "(string \<Rightarrow> string) \<Rightarrow> string option \<Rightarrow> string option \<Rightarrow> state \<Rightarrow> state" where
  "request ih magnet rng s0 =
     (let r = next_rid s0;
          s = s0\<lparr>next_rid := r + 1\<rparr>
      in case magnet of
           None \<Rightarrow> s\<lparr>responses := (responses s)(r \<mapsto> json_error 400 ''Magnet link is required'')\<rparr>
         | Some m \<Rightarrow>
             if m = [] then
               s\<lparr>responses := (responses s)(r \<mapsto> json_error 400 ''Magnet link is required'')\<rparr>
             else
               (case client_get ih m s of
                  None \<Rightarrow> (case client_add ih m s of (t, s1) \<Rightarrow> suspend r t OnTorrent rng s1)
                | Some t \<Rightarrow>
                    if \<not> ready (heap s t) then suspend r t OnceReady rng s
                    else serve r t rng s))"

subsection \<open>What the engine and the clients do\<close>

text \<open>
  The engine reports a torrent ready, with its files; it does so at most once, and only
  for a torrent that is on the client's list. The callback of \<open>client.add\<close> and the
  \<open>once('ready')\<close> listeners resolve their promises, and the handlers waiting for this
  torrent go on in the order they arrived. At that point \<open>torrent.ready\<close> holds, so the
  handler resumed at line 71 passes the test of line 78.
\<close>

definition torrent_ready :: "tid \<Rightarrow> torrent_file list \<Rightarrow> state \<Rightarrow> state" where
  "torrent_ready t fs s =
     (if destroyed (heap s t) \<or> ready (heap s t) \<or> t \<notin> set (client_torrents s) then s
      else
        fold (\<lambda>p. serve (p_rid p) t (p_range p))
          (filter (\<lambda>p. p_torrent p = t) (waiting s))
          (s\<lparr>heap := (heap s)(t := (heap s t)\<lparr>ready := True, files := fs\<rparr>),
             waiting := filter (\<lambda>p. p_torrent p \<noteq> t) (waiting s)\<rparr>))"

text \<open>Lines 153 to 157, one listener of the torrent's \<open>error\<close> event.\<close>

definition on_error :: "tid \<Rightarrow> state \<Rightarrow> state" where
  "on_error t s =
     (let s1 = (if \<not> destroyed (heap s t) then torrent_destroy t s else s)
      in s1\<lparr>activeTorrents := (activeTorrents s1)(infoHash (heap s1 t) := None)\<rparr>)"

text \<open>
  The torrent emits \<open>error\<close>: every registered listener runs. What the engine does to the
  torrent by itself is not the server's code and is left out.
\<close>

definition torrent_error :: "tid \<Rightarrow> state \<Rightarrow> state" where
  "torrent_error t s = (on_error t ^^ error_listeners (heap s t)) s"

text \<open>
  Lines 122 to 126 and 146 to 150: the response closes (the client went away, or the
  transfer is over). Only a request that got as far as piping a stream has the listener.
\<close>

definition on_close :: "rid \<Rightarrow> state \<Rightarrow> state" where
  "on_close r s =
     (case streams s r of
        None \<Rightarrow> s
      | Some st \<Rightarrow>
          keepTorrentAlive (source st)
            (s\<lparr>streams := (streams s)(r \<mapsto> st\<lparr>stream_destroyed := True\<rparr>)\<rparr>))"

text \<open>Lines 117 to 120 and 141 to 144: the read stream reports an error.\<close>

definition on_stream_error :: "rid \<Rightarrow> state \<Rightarrow> state" where
  "on_stream_error r s =
     (case streams s r of None \<Rightarrow> s | Some st \<Rightarrow> keepTorrentAlive (source st) s)"

text \<open>
  Node runs one callback at a time, each to its end or to its next \<open>await\<close>. A run of the
  server is therefore a sequence of events, each handled atomically.
\<close>

datatype event =
    Request "string option" "string option"
  | Ready tid "torrent_file list"
  | TorrentError tid
  | Close rid
  | StreamError rid
  | Elapse nat

fun step :: "(string \<Rightarrow> string) \<Rightarrow> event \<Rightarrow> state \<Rightarrow> state" where
  "step ih (Request magnet rng) s = request ih magnet rng s"
| "step ih (Ready t fs) s = torrent_ready t fs s"
| "step ih (TorrentError t) s = torrent_error t s"
| "step ih (Close r) s = on_close r s"
| "step ih (StreamError r) s = on_stream_error r s"
| "step ih (Elapse d) s = elapse d s"

definition run :: "(string \<Rightarrow> string) \<Rightarrow> event list \<Rightarrow> state \<Rightarrow> state" where
  "run ih evs s = fold (step ih) evs s"

subsection \<open>Sample inputs\<close>

definition sample_video :: torrent_file where
  "sample_video = \<lparr>name = ''video.mp4'', file_length = 1000\<rparr>"

definition sample_magnet :: string where
  "sample_magnet = ''magnet:?xt=urn:btih:c0ffee''"

text \<open>One request for the sample content, answered once the engine reports it ready.\<close>

definition sample_state :: state where
  "sample_state = run (\<lambda>m. m) [Request (Some sample_magnet) None, Ready 0 [sample_video]] init"

definition sample_text :: torrent_file where
  "sample_text = \<lparr>name = ''readme.txt'', file_length = 10\<rparr>"

text \<open>The same for a content that holds no video.\<close>

definition sample_state_no_video :: state where
  "sample_state_no_video =
     run (\<lambda>m. m) [Request (Some sample_magnet) None, Ready 0 [sample_text]] init"

subsection \<open>Well-formed range headers and the invariant of a range request\<close>

text \<open>
  The header a client sends for the bytes from \<open>a\<close> on, up to \<open>b\<close> when it gives an end:
  \<open>bytes=a-b\<close> or \<open>bytes=a-\<close>, in decimal.
\<close>

definition range_header :: "nat \<Rightarrow> nat option \<Rightarrow> string" where
  "range_header a b =
     ''bytes='' @ show_nat a @ ''-'' @ (case b of None \<Rightarrow> [] | Some b' \<Rightarrow> show_nat b')"

text \<open>\<open>0 \<le> start \<le> end \<le> length - 1\<close>, for the numbers the handler derives from a header.\<close>

definition range_invariant :: "nat \<Rightarrow> string \<Rightarrow> bool" where
  "range_invariant fileSize r =
     (case (range_start r, range_end fileSize r) of
        (Num a, Num b) \<Rightarrow> 0 \<le> a \<and> a \<le> b \<and> b \<le> int fileSize - 1
      | _ \<Rightarrow> False)"

subsection \<open>Allocation invariant of the client\<close>

text \<open>
  The torrents on the client's list have been allocated and are not destroyed, and no two
  of them have the same info hash. Every run of the server keeps this: \<open>client_add\<close> is
  only called when \<open>client_get\<close> found nothing, and \<open>torrent_destroy\<close> takes the torrent
  off the list.
\<close>

definition client_ok :: "state \<Rightarrow> bool" where
  "client_ok s =
     (list_all (\<lambda>t. t < next_tid s \<and> \<not> destroyed (heap s t)) (client_torrents s)
      \<and> distinct (map (\<lambda>t. infoHash (heap s t)) (client_torrents s)))"

text \<open>An allocated torrent that is not on the client's list.\<close>

definition off_list :: "tid \<Rightarrow> state \<Rightarrow> bool" where
  "off_list t s = (t < next_tid s \<and> t \<notin> set (client_torrents s))"

text \<open>
  The request \<open>r\<close> has no response, and if its handler is suspended, it waits for the
  torrent \<open>t\<close>.
\<close>

definition unanswered :: "rid \<Rightarrow> tid \<Rightarrow> state \<Rightarrow> bool" where
  "unanswered r t s =
     (responses s r = None \<and> r < next_rid s
      \<and> (\<forall>p \<in> set (waiting s). p_rid p = r \<longrightarrow> p_torrent p = t))"

subsection \<open>Timers of a key\<close>

text \<open>
  The pending timers whose callback deletes the key \<open>k\<close>, and the property that each of
  them is the timer recorded in the entry of \<open>k\<close> (and that timer handles are fresh).
\<close>

definition key_timers :: "string \<Rightarrow> state \<Rightarrow> timer list" where
  "key_timers k s = filter (\<lambda>tm. infoHash (heap s (target tm)) = k) (timers s)"

definition no_stale :: "string \<Rightarrow> state \<Rightarrow> bool" where
  "no_stale k s =
     ((\<forall>tm \<in> set (timers s). timer_id tm < next_timer s)
      \<and> (\<forall>tm \<in> set (key_timers k s).
            \<exists>e. activeTorrents s k = Some e \<and> timeout e = timer_id tm))"

text \<open>
  The pending timers have distinct fresh handles and allocated targets, each is the timer
  recorded in the entry of its target's info hash, and every stream reads from an allocated
  torrent.
\<close>

definition timers_wf :: "state \<Rightarrow> bool" where
  "timers_wf s =
     (distinct (map timer_id (timers s))
      \<and> (\<forall>tm \<in> set (timers s).
            timer_id tm < next_timer s \<and> target tm < next_tid s
            \<and> (\<exists>e. activeTorrents s (infoHash (heap s (target tm))) = Some e
                     \<and> timeout e = timer_id tm))
      \<and> (\<forall>st \<in> ran (streams s). source st < next_tid s))"

definition is_error :: "event \<Rightarrow> bool" where
  "is_error e = (case e of TorrentError _ \<Rightarrow> True | _ \<Rightarrow> False)"

subsection \<open>A run with a fatal error\<close>

text \<open>
  A session of the sample content is served and then emits \<open>error\<close>. One second later
  the content is requested again and a second session is served. At 600000 ms the content
  is requested a third time.
\<close>

definition stale_timer_trace :: "event list" where
  "stale_timer_trace =
     [Request (Some sample_magnet) None, Ready 0 [sample_video], TorrentError 0,
      Elapse 1000,
      Request (Some sample_magnet) None, Ready 1 [sample_video],
      Elapse 599000,
      Request (Some sample_magnet) None]"

text \<open>
  In the same run, the client of the third request goes away after 500 ms, and the
  content is requested once more 500 ms later.
\<close>

definition disconnect_trace :: "event list" where
  "disconnect_trace =
     stale_timer_trace @ [Elapse 500, Close 2, Elapse 500, Request (Some sample_magnet) None]"

subsection \<open>A session kept alive\<close>

text \<open>The time that passes in a sequence of events.\<close>

fun elapsed_of :: "event \<Rightarrow> nat" where
  "elapsed_of (Elapse d) = d"
| "elapsed_of _ = 0"

definition elapsed :: "event list \<Rightarrow> nat" where
  "elapsed evs = sum_list (map elapsed_of evs)"

text \<open>
  The torrent \<open>t\<close> with info hash \<open>k\<close> is on the client's list and not destroyed, the
  clock has reached \<open>T0\<close>, and no pending timer that holds \<open>t\<close> is due before
  \<open>T0 + TTL\<close>.
\<close>

definition kept_alive :: "string \<Rightarrow> nat \<Rightarrow> tid \<Rightarrow> state \<Rightarrow> bool" where
  "kept_alive k T0 t s =
     (t < next_tid s \<and> t \<in> set (client_torrents s) \<and> \<not> destroyed (heap s t)
      \<and> infoHash (heap s t) = k \<and> T0 \<le> now s
      \<and> (\<forall>tm \<in> set (timers s). target tm = t \<longrightarrow> T0 + TORRENT_TTL \<le> deadline tm))"

section \<open>Basic facts\<close>

lemmas handler_defs =
  run_def init_def request_def client_get_def client_add_def suspend_def torrent_ready_def
  serve_def keepTorrentAlive_def clearTimeout_def find_playable_def playable_def endsWith_def
  stream_response_def full_response_def torrent_error_def on_error_def torrent_destroy_def
  elapse_def on_timeout_def TORRENT_TTL_def json_error_def on_close_def on_stream_error_def
  Let_def sample_video_def sample_magnet_def

lemmas parse_defs =
  range_start_def range_end_def range_parts_def parseInt_def is_space_def is_digit_def
  digits_val_def digit_val_def chunkSize_def js_num_def MAX_SAFE_INTEGER_def content_range_def

lemma keepTorrentAlive_heap [simp]: "heap (keepTorrentAlive t s) = heap s"
  by (simp add: keepTorrentAlive_def Let_def)

lemma keepTorrentAlive_streams [simp]: "streams (keepTorrentAlive t s) = streams s"
  by (simp add: keepTorrentAlive_def Let_def)

lemma keepTorrentAlive_responses [simp]: "responses (keepTorrentAlive t s) = responses s"
  by (simp add: keepTorrentAlive_def Let_def)

lemma serve_response_found:
  "find_playable (files (heap s t)) = Some f \<Longrightarrow>
     responses (serve r t rng s) r = Some (stream_response f rng)"
  by (simp add: serve_def Let_def)

lemma serve_response_none:
  "find_playable (files (heap s t)) = None \<Longrightarrow>
     responses (serve r t rng s) r = Some (json_error 404 ''No video file found in torrent.'')
     \<and> streams (serve r t rng s) = streams s"
  by (simp add: serve_def Let_def)

lemma show_nat_samples:
  "show_nat 100 = ''100''" "show_nat 199 = ''199''" "show_nat 500 = ''500''"
  "show_nat 999 = ''999''" "show_nat 1000 = ''1000''"
  by (simp_all add: show_nat.simps digit_char_def)

text \<open>A request for a session that the client holds and that is ready is served at once.\<close>

lemma request_serves:
  assumes "m \<noteq> []" and "client_get ih m s = Some t" and "ready (heap s t)"
  shows "request ih (Some m) rng s
           = serve (next_rid s) t rng (s\<lparr>next_rid := Suc (next_rid s)\<rparr>)"
proof -
  have "client_get ih m (s\<lparr>next_rid := next_rid s + 1\<rparr>) = Some t"
    using assms(2) by (simp add: client_get_def)
  then show ?thesis
    using assms(1,3) by (simp add: request_def Let_def)
qed

lemma sample_state_files: "files (heap sample_state 0) = [sample_video]"
  by (simp add: sample_state_def handler_defs)

lemma sample_find: "find_playable [sample_video] = Some sample_video"
  by (simp add: handler_defs)

lemma startsWith_append: "startsWith s p \<longleftrightarrow> (\<exists>q. s = p @ q)"
  by (induction s p rule: startsWith.induct) auto

lemma endsWith_iff: "endsWith s suf \<longleftrightarrow> (\<exists>p. s = p @ suf)"
proof -
  have "endsWith s suf \<longleftrightarrow> (\<exists>q. rev s = rev suf @ q)"
    by (simp add: endsWith_def startsWith_append)
  also have "\<dots> \<longleftrightarrow> (\<exists>p. s = p @ suf)"
  proof
    assume "\<exists>q. rev s = rev suf @ q"
    then obtain q where "rev s = rev suf @ q" ..
    then have "rev (rev s) = rev (rev suf @ q)" by simp
    then have "s = rev q @ suf" by simp
    then show "\<exists>p. s = p @ suf" ..
  next
    assume "\<exists>p. s = p @ suf"
    then obtain p where "s = p @ suf" ..
    then have "rev s = rev suf @ rev p" by simp
    then show "\<exists>q. rev s = rev suf @ q" ..
  qed
  finally show ?thesis .
qed

section \<open>Range correctness\<close>

text \<open>
  C3. Whenever the handler reaches its response stage for a request \<open>r\<close> on a session
  \<open>t\<close> whose first playable file has length \<open>L\<close>: the header \<open>bytes=100-199\<close> gives
  status 206, \<open>Content-Range: bytes 100-199/L\<close> and \<open>Content-Length: 100\<close>; on a file of
  length 1000 the header \<open>bytes=500-\<close> gives \<open>Content-Range: bytes 500-999/1000\<close> and
  \<open>Content-Length: 500\<close>; no Range header gives status 200 and \<open>Content-Length: L\<close>.
\<close>

theorem range_correctness:
  assumes "find_playable (files (heap s t)) = Some f" and "file_length f = L"
  shows "responses (serve r t (Some ''bytes=100-199'') s) r =
           Some \<lparr>status = 206,
                 headers = [(''Content-Range'', HStr (''bytes 100-199/'' @ show_nat L)),
                            (''Accept-Ranges'', HStr ''bytes''),
                            (''Content-Length'', HNum (Num 100)),
                            (''Content-Type'', HStr ''video/mp4'')],
                 body = Piped (StartEnd (Num 100) (Num 199))\<rparr>
       \<and> (L = 1000 \<longrightarrow>
            responses (serve r t (Some ''bytes=500-'') s) r =
              Some \<lparr>status = 206,
                    headers = [(''Content-Range'', HStr ''bytes 500-999/1000''),
                               (''Accept-Ranges'', HStr ''bytes''),
                               (''Content-Length'', HNum (Num 500)),
                               (''Content-Type'', HStr ''video/mp4'')],
                    body = Piped (StartEnd (Num 500) (Num 999))\<rparr>)
       \<and> responses (serve r t None s) r =
           Some \<lparr>status = 200,
                 headers = [(''Content-Length'', HNum (Num (int L))),
                            (''Content-Type'', HStr ''video/mp4''),
                            (''Accept-Ranges'', HStr ''bytes'')],
                 body = Piped NoOpts\<rparr>"
proof -
  have a: "range_start ''bytes=100-199'' = Num 100" "range_end L ''bytes=100-199'' = Num 199"
    by (simp_all add: parse_defs)
  have b: "range_start ''bytes=500-'' = Num 500" "range_end 1000 ''bytes=500-'' = Num 999"
    by (simp_all add: parse_defs)
  show ?thesis
    using assms
    by (simp add: serve_response_found stream_response_def range_response_def full_response_def
        chunkSize_def content_range_def js_num_def MAX_SAFE_INTEGER_def a b show_nat_samples
        Let_def)
qed

theorem range_correctness_witness:
  "find_playable (files (heap sample_state 0)) = Some sample_video
   \<and> file_length sample_video = 1000
   \<and> responses (serve 1 0 (Some ''bytes=100-199'') sample_state) 1 =
       Some \<lparr>status = 206,
             headers = [(''Content-Range'', HStr ''bytes 100-199/1000''),
                        (''Accept-Ranges'', HStr ''bytes''),
                        (''Content-Length'', HNum (Num 100)),
                        (''Content-Type'', HStr ''video/mp4'')],
             body = Piped (StartEnd (Num 100) (Num 199))\<rparr>
   \<and> responses (serve 1 0 (Some ''bytes=500-'') sample_state) 1 =
       Some \<lparr>status = 206,
             headers = [(''Content-Range'', HStr ''bytes 500-999/1000''),
                        (''Accept-Ranges'', HStr ''bytes''),
                        (''Content-Length'', HNum (Num 500)),
                        (''Content-Type'', HStr ''video/mp4'')],
             body = Piped (StartEnd (Num 500) (Num 999))\<rparr>
   \<and> responses (serve 1 0 None sample_state) 1 =
       Some \<lparr>status = 200,
             headers = [(''Content-Length'', HNum (Num 1000)),
                        (''Content-Type'', HStr ''video/mp4''),
                        (''Accept-Ranges'', HStr ''bytes'')],
             body = Piped NoOpts\<rparr>"
proof -
  have h1: "find_playable (files (heap sample_state 0)) = Some sample_video"
    by (simp add: sample_state_files sample_find)
  have h2: "file_length sample_video = 1000"
    by (simp add: sample_video_def)
  show ?thesis
    using range_correctness [OF h1 h2, of 1] h1 h2 by (simp add: show_nat_samples)
qed

section \<open>The range request\<close>

subsection \<open>Reading back a printed number\<close>

lemma digit_char_code: "d < 10 \<Longrightarrow> (of_char (digit_char d) :: nat) = 48 + d"
proof -
  assume "d < 10"
  then have "d \<in> {0, 1, 2, 3, 4, 5, 6, 7, 8, 9}" by auto
  then show ?thesis by (auto simp: digit_char_def)
qed

lemma digit_char_is_digit: "d < 10 \<Longrightarrow> is_digit (digit_char d)"
  by (simp add: is_digit_def digit_char_code)

lemma digit_char_val: "d < 10 \<Longrightarrow> digit_val (digit_char d) = d"
  by (simp add: digit_val_def digit_char_code)

lemma show_nat_digits: "c \<in> set (show_nat n) \<Longrightarrow> is_digit c"
proof (induction n arbitrary: c rule: show_nat.induct)
  case (1 n)
  show ?case
  proof (cases "n < 10")
    case True
    with "1.prems" show ?thesis
      by (simp add: show_nat.simps [of n] digit_char_is_digit)
  next
    case False
    with "1.prems" have "c \<in> set (show_nat (n div 10)) \<or> c = digit_char (n mod 10)"
      by (auto simp: show_nat.simps [of n])
    then show ?thesis
      using "1.IH" [OF False] by (auto simp: digit_char_is_digit)
  qed
qed

lemma show_nat_nonempty: "show_nat n \<noteq> []"
  by (simp add: show_nat.simps [of n])

lemma digits_val_snoc: "digits_val (ds @ [c]) = 10 * digits_val ds + digit_val c"
  by (simp add: digits_val_def)

lemma digits_val_show_nat: "digits_val (show_nat n) = n"
proof (induction n rule: show_nat.induct)
  case (1 n)
  show ?case
  proof (cases "n < 10")
    case True
    then show ?thesis
      by (simp add: show_nat.simps [of n] digits_val_def digit_char_val)
  next
    case False
    then show ?thesis
      using "1.IH" by (simp add: show_nat.simps [of n] digits_val_snoc digit_char_val)
  qed
qed

lemma is_digit_plain: "is_digit c \<Longrightarrow> \<not> is_space c \<and> c \<noteq> CHR ''-'' \<and> c \<noteq> CHR ''+''"
  by (auto simp: is_digit_def is_space_def)

lemma parseInt_digits:
  assumes "ds \<noteq> []" and "\<forall>c \<in> set ds. is_digit c"
  shows "parseInt ds = js_num (int (digits_val ds))"
proof -
  obtain c cs where ds: "ds = c # cs" using assms(1) by (cases ds) auto
  have c: "\<not> is_space c" "c \<noteq> CHR ''-''" "c \<noteq> CHR ''+''" "is_digit c"
    using assms(2) is_digit_plain [of c] by (auto simp: ds)
  have t: "takeWhile is_digit cs = cs"
    using assms(2) by (simp add: ds)
  show ?thesis
    unfolding parseInt_def ds using c by (simp add: Let_def t)
qed

lemma parseInt_show_nat: "parseInt (show_nat n) = js_num (int n)"
  using parseInt_digits [of "show_nat n"] show_nat_nonempty show_nat_digits
  by (simp add: digits_val_show_nat)

lemma max_safe_pos: "1 < MAX_SAFE_INTEGER"
  by (simp add: MAX_SAFE_INTEGER_def)

lemma js_sub_safe:
  "\<bar>a\<bar> \<le> MAX_SAFE_INTEGER \<Longrightarrow> \<bar>b\<bar> \<le> MAX_SAFE_INTEGER \<Longrightarrow> \<bar>a - b\<bar> \<le> MAX_SAFE_INTEGER
     \<Longrightarrow> js_sub (Num a) (Num b) = Num (a - b)"
  by (simp add: js_num_def)

lemma js_add_safe:
  "\<bar>a\<bar> \<le> MAX_SAFE_INTEGER \<Longrightarrow> \<bar>b\<bar> \<le> MAX_SAFE_INTEGER \<Longrightarrow> \<bar>a + b\<bar> \<le> MAX_SAFE_INTEGER
     \<Longrightarrow> js_add (Num a) (Num b) = Num (a + b)"
  by (simp add: js_num_def)

lemma js_num_Num: "js_num i = Num x \<Longrightarrow> x = i \<and> \<bar>x\<bar> \<le> MAX_SAFE_INTEGER"
  by (auto simp: js_num_def split: if_splits)

lemma js_sub_Num: "js_sub u v = Num x \<Longrightarrow> \<bar>x\<bar> \<le> MAX_SAFE_INTEGER"
  by (cases u; cases v) (auto simp: js_num_def split: if_splits)

lemma parseInt_Num: "parseInt p = Num x \<Longrightarrow> \<bar>x\<bar> \<le> MAX_SAFE_INTEGER"
  by (auto simp: parseInt_def Let_def js_num_def split: if_splits list.splits prod.splits)

lemma range_start_Num: "range_start r = Num x \<Longrightarrow> \<bar>x\<bar> \<le> MAX_SAFE_INTEGER"
  by (auto simp: range_start_def parseInt_Num split: list.splits)

lemma range_end_Num: "range_end L r = Num y \<Longrightarrow> \<bar>y\<bar> \<le> MAX_SAFE_INTEGER"
  by (auto simp: range_end_def parseInt_Num simp del: js_sub.simps
      dest: js_sub_Num split: list.splits if_splits)

lemma default_end:
  "int L \<le> MAX_SAFE_INTEGER \<Longrightarrow> js_sub (Num (int L)) (Num 1) = Num (int L - 1)"
  using max_safe_pos by (intro js_sub_safe) (simp_all add: abs_if)

lemma js_num_nat: "int n \<le> MAX_SAFE_INTEGER \<Longrightarrow> js_num (int n) = Num (int n)"
  by (simp add: js_num_def)

lemma file_size_minus_one:
  "int L \<le> MAX_SAFE_INTEGER \<Longrightarrow> js_num (int L - 1) = Num (int L - 1)"
  using max_safe_pos by (simp add: js_num_def abs_if)

lemma js_num_safe: "\<bar>i\<bar> \<le> MAX_SAFE_INTEGER \<Longrightarrow> js_num i = Num i"
  by (simp add: js_num_def)

lemma js_toString_nat:
  "int n \<le> MAX_SAFE_INTEGER \<Longrightarrow> js_toString (Num (int n)) = Some (show_nat n)"
  by simp

lemma split_on_no_sep: "sep \<notin> set s \<Longrightarrow> split_on sep s = [s]"
  by (induction s) auto

lemma split_on_first: "sep \<notin> set a \<Longrightarrow> split_on sep (a @ sep # b) = a # split_on sep b"
  by (induction a) auto

lemma show_nat_no_dash: "CHR ''-'' \<notin> set (show_nat n)"
  using show_nat_digits is_digit_plain by blast

lemma range_parts_header:
  "range_parts (range_header a b) = [show_nat a, (case b of None \<Rightarrow> [] | Some b' \<Rightarrow> show_nat b')]"
proof -
  have "replace_first ''bytes='' [] (range_header a b)
      = show_nat a @ CHR ''-'' # (case b of None \<Rightarrow> [] | Some b' \<Rightarrow> show_nat b')"
    by (simp add: range_header_def)
  moreover have "CHR ''-'' \<notin> set (case b of None \<Rightarrow> [] | Some b' \<Rightarrow> show_nat b')"
    by (cases b) (simp_all add: show_nat_no_dash)
  ultimately show ?thesis
    by (simp add: range_parts_def split_on_first show_nat_no_dash split_on_no_sep)
qed

lemma range_start_header: "range_start (range_header a b) = js_num (int a)"
  by (simp add: range_start_def range_parts_header parseInt_show_nat)

lemma range_end_header:
  "range_end L (range_header a b)
     = (case b of None \<Rightarrow> js_sub (Num (int L)) (Num 1) | Some b' \<Rightarrow> js_num (int b'))"
  by (cases b) (simp_all add: range_end_def range_parts_header parseInt_show_nat show_nat_nonempty)

text \<open>Headers whose numbers leave the safe integers: the model determines no value.\<close>

lemma outside_samples:
  "range_start ''bytes=9007199254740993-'' = Outside"
  "chunkSize 1000 ''bytes=0-9007199254740992'' = Outside"
  "content_range (range_start ''bytes=1000000000000000000000-'') (Num 999) 1000 = HOutside"
  by (simp_all add: parse_defs)

subsection \<open>The bounds are those of the header\<close>

text \<open>
  C4, as the specification states it, fails: the handler derives the bounds from the
  header and checks nothing. For \<open>bytes=200-100\<close> the start is 200 and the end 100.
\<close>

theorem range_request_counterexample:
  "range_start ''bytes=200-100'' = Num 200
   \<and> range_end 1000 ''bytes=200-100'' = Num 100
   \<and> \<not> range_invariant 1000 ''bytes=200-100''"
  by (simp add: range_invariant_def parse_defs)

text \<open>
  C4, amended, for a file whose length \<open>L\<close> is a safe integer. The end is \<open>L - 1\<close>
  whenever the header has no second part or an empty one. When start and end are the
  integers \<open>x\<close> and \<open>y\<close> and \<open>y - x + 1\<close> is a safe integer, the chunk size is
  \<open>y - x + 1\<close>. The bounds are not validated: \<open>0 \<le> start \<le> end \<le> L - 1\<close> holds when
  the client sends \<open>bytes=a-\<close> with \<open>a < L\<close> or \<open>bytes=a-b\<close> with \<open>a \<le> b < L\<close>, and then
  start, end and chunk size are \<open>a\<close>, \<open>b\<close> (or \<open>L - 1\<close>) and \<open>end - start + 1\<close>.
\<close>

theorem range_request_amended:
  "(int L \<le> MAX_SAFE_INTEGER \<and> (\<forall>p0 p1 ps. range_parts r = p0 # p1 # ps \<longrightarrow> p1 = [])
      \<longrightarrow> range_end L r = Num (int L - 1))
   \<and> (range_start r = Num x \<and> range_end L r = Num y
        \<and> \<bar>y - x\<bar> \<le> MAX_SAFE_INTEGER \<and> \<bar>y - x + 1\<bar> \<le> MAX_SAFE_INTEGER
      \<longrightarrow> chunkSize L r = Num (y - x + 1))
   \<and> (int L \<le> MAX_SAFE_INTEGER \<and> a < L \<longrightarrow>
        range_start (range_header a None) = Num (int a)
        \<and> range_end L (range_header a None) = Num (int L - 1)
        \<and> chunkSize L (range_header a None) = Num (int L - int a)
        \<and> range_invariant L (range_header a None))
   \<and> (int L \<le> MAX_SAFE_INTEGER \<and> a \<le> b \<and> b < L \<longrightarrow>
        range_start (range_header a (Some b)) = Num (int a)
        \<and> range_end L (range_header a (Some b)) = Num (int b)
        \<and> chunkSize L (range_header a (Some b)) = Num (int b - int a + 1)
        \<and> range_invariant L (range_header a (Some b)))"
proof -
  have 1: "int L \<le> MAX_SAFE_INTEGER \<and> (\<forall>p0 p1 ps. range_parts r = p0 # p1 # ps \<longrightarrow> p1 = [])
      \<longrightarrow> range_end L r = Num (int L - 1)"
    by (auto simp: range_end_def default_end simp del: js_sub.simps split: list.splits)
  have 2: "range_start r = Num x \<and> range_end L r = Num y
        \<and> \<bar>y - x\<bar> \<le> MAX_SAFE_INTEGER \<and> \<bar>y - x + 1\<bar> \<le> MAX_SAFE_INTEGER
      \<longrightarrow> chunkSize L r = Num (y - x + 1)"
    using range_start_Num [of r x] range_end_Num [of L r y] max_safe_pos
    by (auto simp: chunkSize_def js_num_def)
  have 3: "int L \<le> MAX_SAFE_INTEGER \<and> a < L \<longrightarrow>
        range_start (range_header a None) = Num (int a)
        \<and> range_end L (range_header a None) = Num (int L - 1)
        \<and> chunkSize L (range_header a None) = Num (int L - int a)
        \<and> range_invariant L (range_header a None)"
    using max_safe_pos
    by (simp add: range_invariant_def chunkSize_def range_start_header range_end_header
        file_size_minus_one js_num_def abs_if)
  have 4: "int L \<le> MAX_SAFE_INTEGER \<and> a \<le> b \<and> b < L \<longrightarrow>
        range_start (range_header a (Some b)) = Num (int a)
        \<and> range_end L (range_header a (Some b)) = Num (int b)
        \<and> chunkSize L (range_header a (Some b)) = Num (int b - int a + 1)
        \<and> range_invariant L (range_header a (Some b))"
    using max_safe_pos
    by (simp add: range_invariant_def chunkSize_def range_start_header range_end_header
        file_size_minus_one js_num_def abs_if)
  show ?thesis using 1 2 3 4 by blast
qed

theorem range_request_amended_witness:
  "int 1000 \<le> MAX_SAFE_INTEGER
   \<and> range_end 1000 ''bytes=500'' = Num 999
   \<and> chunkSize 1000 ''bytes=500'' = Num 500
   \<and> range_end 1000 (range_header 100 None) = Num 999
   \<and> range_invariant 1000 (range_header 100 None)
   \<and> chunkSize 1000 (range_header 100 (Some 199)) = Num 100
   \<and> range_invariant 1000 (range_header 100 (Some 199))"
proof -
  have h: "\<forall>p0 p1 ps. range_parts ''bytes=500'' = p0 # p1 # ps \<longrightarrow> p1 = []"
    by (simp add: range_parts_def)
  have s: "range_start ''bytes=500'' = Num 500"
    by (simp add: parse_defs)
  have m: "int 1000 \<le> MAX_SAFE_INTEGER"
    by (simp add: MAX_SAFE_INTEGER_def)
  show ?thesis
    using range_request_amended [of 1000 "''bytes=500''" 500 999 100 199] h s m
    by (simp add: MAX_SAFE_INTEGER_def)
qed

section \<open>No validation of the range\<close>





lemma js_add_NaN [simp]: "js_add x NaN = NaN"
  by (cases x) simp_all

lemma js_sub_NaN [simp]: "js_sub x NaN = NaN"
  by (cases x) simp_all



section \<open>File selection\<close>

text \<open>
  C8. The target is the first file of the session's list whose name ends with \<open>.mp4\<close>,
  \<open>.mkv\<close> or \<open>.avi\<close>, and the response streams that file; when no file of the list
  matches, the response is 404 with an error body and no read stream is opened.
\<close>

theorem file_selection:
  "(find_playable fs = Some f \<longleftrightarrow>
      (\<exists>before after. fs = before @ f # after
         \<and> (\<forall>g \<in> set before. \<not> playable g) \<and> playable f))
   \<and> (playable f \<longleftrightarrow>
        (\<exists>p. name f = p @ ''.mp4'') \<or> (\<exists>p. name f = p @ ''.mkv'')
        \<or> (\<exists>p. name f = p @ ''.avi''))
   \<and> (find_playable (files (heap s t)) = Some f \<longrightarrow>
        responses (serve r t rng s) r = Some (stream_response f rng))
   \<and> (find_playable (files (heap s t)) = None \<longrightarrow>
        responses (serve r t rng s) r =
          Some \<lparr>status = 404, headers = [],
                body = Json [(''error'', ''No video file found in torrent.'')]\<rparr>
        \<and> streams (serve r t rng s) = streams s)"
proof -
  have 1: "find_playable fs = Some f \<longleftrightarrow>
      (\<exists>before after. fs = before @ f # after
         \<and> (\<forall>g \<in> set before. \<not> playable g) \<and> playable f)"
  proof
    assume "find_playable fs = Some f"
    then obtain i where i: "i < length fs" "playable (fs ! i)" "f = fs ! i"
        "\<forall>j<i. \<not> playable (fs ! j)"
      unfolding find_playable_def find_Some_iff by blast
    have "fs = take i fs @ f # drop (Suc i) fs"
      using i(1,3) by (simp add: id_take_nth_drop)
    moreover have "\<forall>g \<in> set (take i fs). \<not> playable g"
      using i(1,4) by (auto simp: in_set_conv_nth)
    ultimately show "\<exists>before after. fs = before @ f # after
        \<and> (\<forall>g \<in> set before. \<not> playable g) \<and> playable f"
      using i(2,3) by blast
  next
    assume "\<exists>before after. fs = before @ f # after
        \<and> (\<forall>g \<in> set before. \<not> playable g) \<and> playable f"
    then obtain before after where h: "fs = before @ f # after"
        "\<forall>g \<in> set before. \<not> playable g" "playable f"
      by blast
    have "find playable (before @ f # after) = Some f"
      using h(2,3) by (induction before) auto
    then show "find_playable fs = Some f" by (simp add: find_playable_def h(1))
  qed
  have 2: "playable f \<longleftrightarrow>
        (\<exists>p. name f = p @ ''.mp4'') \<or> (\<exists>p. name f = p @ ''.mkv'')
        \<or> (\<exists>p. name f = p @ ''.avi'')"
    by (simp only: playable_def endsWith_iff)
  show ?thesis
    using 1 2 serve_response_found [of s t f r rng] serve_response_none [of s t r rng]
    by (simp add: json_error_def)
qed

theorem file_selection_witness:
  "find_playable [sample_text, sample_video, sample_video\<lparr>name := ''b.mkv''\<rparr>]
     = Some sample_video
   \<and> responses (serve 1 0 (Some ''bytes=0-'') sample_state) 1
     = Some (stream_response sample_video (Some ''bytes=0-''))
   \<and> find_playable (files (heap sample_state_no_video 0)) = None
   \<and> responses (serve 1 0 None sample_state_no_video) 1
     = Some \<lparr>status = 404, headers = [],
             body = Json [(''error'', ''No video file found in torrent.'')]\<rparr>
   \<and> streams (serve 1 0 None sample_state_no_video) = streams sample_state_no_video"
proof -
  have a: "[sample_text, sample_video, sample_video\<lparr>name := ''b.mkv''\<rparr>]
      = [sample_text] @ sample_video # [sample_video\<lparr>name := ''b.mkv''\<rparr>]
    \<and> (\<forall>g \<in> set [sample_text]. \<not> playable g) \<and> playable sample_video"
    by (simp add: sample_text_def handler_defs)
  have b: "find_playable (files (heap sample_state 0)) = Some sample_video"
    by (simp add: sample_state_files sample_find)
  have c: "find_playable (files (heap sample_state_no_video 0)) = None"
    by (simp add: sample_state_no_video_def sample_text_def handler_defs)
  show ?thesis
    using file_selection [of "[sample_text, sample_video, sample_video\<lparr>name := ''b.mkv''\<rparr>]"
        sample_video sample_state 0 1 "Some ''bytes=0-''"]
      file_selection [of "[]" sample_video sample_state_no_video 0 1 None] a b c
    by blast
qed

section \<open>Missing parameter\<close>

text \<open>
  C9. A request without the \<open>magnet\<close> query parameter is answered at once with status
  400 and the body \<open>{error: 'Magnet link is required'}\<close>; the cache table, the timers, the
  torrents, the suspended handlers and the streams are as they were.
\<close>

theorem missing_parameter:
  "responses (request ih None rng s) (next_rid s) =
     Some \<lparr>status = 400, headers = [], body = Json [(''error'', ''Magnet link is required'')]\<rparr>
   \<and> activeTorrents (request ih None rng s) = activeTorrents s
   \<and> timers (request ih None rng s) = timers s
   \<and> next_timer (request ih None rng s) = next_timer s
   \<and> heap (request ih None rng s) = heap s
   \<and> client_torrents (request ih None rng s) = client_torrents s
   \<and> add_calls (request ih None rng s) = add_calls s
   \<and> waiting (request ih None rng s) = waiting s
   \<and> streams (request ih None rng s) = streams s"
  by (simp add: request_def Let_def json_error_def)

section \<open>One session for concurrent requests\<close>

subsection \<open>Frame lemmas\<close>

lemma keepTorrentAlive_frame [simp]:
  "client_torrents (keepTorrentAlive t s) = client_torrents s"
  "add_calls (keepTorrentAlive t s) = add_calls s"
  "next_tid (keepTorrentAlive t s) = next_tid s"
  "next_rid (keepTorrentAlive t s) = next_rid s"
  "waiting (keepTorrentAlive t s) = waiting s"
  "now (keepTorrentAlive t s) = now s"
  by (simp_all add: keepTorrentAlive_def Let_def)

lemma serve_frame [simp]:
  "client_torrents (serve r t rng s) = client_torrents s"
  "add_calls (serve r t rng s) = add_calls s"
  "next_tid (serve r t rng s) = next_tid s"
  "next_rid (serve r t rng s) = next_rid s"
  "waiting (serve r t rng s) = waiting s"
  "now (serve r t rng s) = now s"
  by (simp_all add: serve_def Let_def split: option.split)

lemma serve_heap [simp]:
  "infoHash (heap (serve r t rng s) u) = infoHash (heap s u)"
  "ready (heap (serve r t rng s) u) = ready (heap s u)"
  "destroyed (heap (serve r t rng s) u) = destroyed (heap s u)"
  "files (heap (serve r t rng s) u) = files (heap s u)"
  by (simp_all add: serve_def Let_def split: option.split)

lemma serve_responses:
  "responses (serve r t rng s) q =
     (if q = r then
        Some (case find_playable (files (heap s t)) of
                None \<Rightarrow> json_error 404 ''No video file found in torrent.''
              | Some f \<Rightarrow> stream_response f rng)
      else responses s q)"
  by (simp add: serve_def Let_def split: option.split)

lemma serve_streams:
  "streams (serve r t rng s) q =
     (if q = r \<and> find_playable (files (heap s t)) \<noteq> None
      then Some \<lparr>source = t, stream_destroyed = False\<rparr> else streams s q)"
  by (auto simp: serve_def Let_def split: option.split)

subsection \<open>Requests for a torrent that is being fetched\<close>

lemma request_waits:
  assumes "m \<noteq> []" and "client_get ih m s = Some t" and "\<not> ready (heap s t)"
  shows "request ih (Some m) rng s =
           s\<lparr>next_rid := Suc (next_rid s),
             waiting := waiting s @ [\<lparr>p_rid = next_rid s, p_torrent = t, p_await = OnceReady,
                                     p_range = rng\<rparr>]\<rparr>"
proof -
  have "client_get ih m (s\<lparr>next_rid := next_rid s + 1\<rparr>) = Some t"
    using assms(2) by (simp add: client_get_def)
  then show ?thesis
    using assms(1,3) by (simp add: request_def suspend_def Let_def)
qed

lemma requests_wait:
  assumes "m \<noteq> []" and "client_get ih m s = Some t" and "\<not> ready (heap s t)"
  shows "run ih (map (Request (Some m)) rngs) s =
           s\<lparr>next_rid := next_rid s + length rngs,
             waiting := waiting s @
               map (\<lambda>(i, rng). \<lparr>p_rid = i, p_torrent = t, p_await = OnceReady, p_range = rng\<rparr>)
                 (enumerate (next_rid s) rngs)\<rparr>"
  using assms(2,3)
proof (induction rngs arbitrary: s)
  case Nil
  then show ?case by (simp add: run_def)
next
  case (Cons rng rngs)
  let ?s1 = "request ih (Some m) rng s"
  have s1: "?s1 = s\<lparr>next_rid := Suc (next_rid s),
             waiting := waiting s @ [\<lparr>p_rid = next_rid s, p_torrent = t, p_await = OnceReady,
                                     p_range = rng\<rparr>]\<rparr>"
    using request_waits [OF assms(1) Cons.prems] .
  have g: "client_get ih m ?s1 = Some t" "\<not> ready (heap ?s1 t)"
    using Cons.prems by (simp_all add: s1 client_get_def)
  have "run ih (map (Request (Some m)) (rng # rngs)) s = run ih (map (Request (Some m)) rngs) ?s1"
    by (simp add: run_def)
  also have "\<dots> = ?s1\<lparr>next_rid := next_rid ?s1 + length rngs,
             waiting := waiting ?s1 @
               map (\<lambda>(i, rng). \<lparr>p_rid = i, p_torrent = t, p_await = OnceReady, p_range = rng\<rparr>)
                 (enumerate (next_rid ?s1) rngs)\<rparr>"
    using Cons.IH [OF g] .
  also have "\<dots> = s\<lparr>next_rid := next_rid s + length (rng # rngs),
             waiting := waiting s @
               map (\<lambda>(i, rng). \<lparr>p_rid = i, p_torrent = t, p_await = OnceReady, p_range = rng\<rparr>)
                 (enumerate (next_rid s) (rng # rngs))\<rparr>"
    by (simp add: s1)
  finally show ?case .
qed

lemma request_adds:
  assumes "m \<noteq> []" and "client_get ih m s = None"
  shows "request ih (Some m) rng s =
           s\<lparr>next_rid := Suc (next_rid s),
             heap := (heap s)(next_tid s := \<lparr>infoHash = ih m, ready = False, destroyed = False,
                                            files = [], error_listeners = 0\<rparr>),
             next_tid := Suc (next_tid s),
             client_torrents := client_torrents s @ [next_tid s],
             add_calls := Suc (add_calls s),
             waiting := waiting s @ [\<lparr>p_rid = next_rid s, p_torrent = next_tid s,
                                     p_await = OnTorrent, p_range = rng\<rparr>]\<rparr>"
proof -
  have "client_get ih m (s\<lparr>next_rid := next_rid s + 1\<rparr>) = None"
    using assms(2) by (simp add: client_get_def)
  then show ?thesis
    using assms(1) by (simp add: request_def suspend_def client_add_def Let_def)
qed

lemma find_append_new:
  assumes "find P xs = None" and "Q t" and "\<forall>x \<in> set xs. Q x = P x"
  shows "find Q (xs @ [t]) = Some t"
  using assms by (induction xs) (auto split: if_splits)

lemma request_adds_get:
  assumes "m \<noteq> []" and "client_get ih m s = None" and "client_ok s"
  shows "client_get ih m (request ih (Some m) rng s) = Some (next_tid s)"
proof -
  have old: "\<forall>x \<in> set (client_torrents s). x \<noteq> next_tid s"
    using assms(3) by (auto simp: client_ok_def list_all_iff)
  show ?thesis
    unfolding request_adds [OF assms(1,2)] client_get_def
    using assms(2) old
    by (simp add: client_get_def find_append_new)
qed


subsection \<open>Resuming the waiting handlers\<close>

lemma resume_responses:
  "responses (fold (\<lambda>p. serve (p_rid p) t (p_range p)) ps s) q \<noteq> None"
  if "q \<in> p_rid ` set ps \<or> responses s q \<noteq> None"
  using that
proof (induction ps arbitrary: s)
  case Nil
  then show ?case by simp
next
  case (Cons p ps)
  have "q \<in> p_rid ` set ps \<or> responses (serve (p_rid p) t (p_range p) s) q \<noteq> None"
    using Cons.prems by (auto simp: serve_responses)
  then show ?case using Cons.IH by simp
qed

lemma resume_streams:
  assumes "find_playable (files (heap s t)) \<noteq> None"
    and "q \<in> p_rid ` set ps \<or> streams s q = Some \<lparr>source = t, stream_destroyed = False\<rparr>"
  shows "streams (fold (\<lambda>p. serve (p_rid p) t (p_range p)) ps s) q
           = Some \<lparr>source = t, stream_destroyed = False\<rparr>"
  using assms
proof (induction ps arbitrary: s)
  case Nil
  then show ?case by simp
next
  case (Cons p ps)
  let ?s1 = "serve (p_rid p) t (p_range p) s"
  have 1: "find_playable (files (heap ?s1 t)) \<noteq> None"
    using Cons.prems(1) by simp
  have 2: "q \<in> p_rid ` set ps \<or> streams ?s1 q = Some \<lparr>source = t, stream_destroyed = False\<rparr>"
    using Cons.prems by (auto simp: serve_streams)
  show ?case using Cons.IH [OF 1 2] by simp
qed

lemma resume_frame [simp]:
  "add_calls (fold (\<lambda>p. serve (p_rid p) t (p_range p)) ps s) = add_calls s"
  "client_torrents (fold (\<lambda>p. serve (p_rid p) t (p_range p)) ps s) = client_torrents s"
  "next_tid (fold (\<lambda>p. serve (p_rid p) t (p_range p)) ps s) = next_tid s"
  "waiting (fold (\<lambda>p. serve (p_rid p) t (p_range p)) ps s) = waiting s"
  by (induction ps arbitrary: s) simp_all

lemma map_rid_enumerate:
  "map p_rid (map (\<lambda>(i, rng). \<lparr>p_rid = i, p_torrent = t, p_await = a, p_range = rng\<rparr>)
     (enumerate n xs)) = [n ..< n + length xs]"
proof (induction xs arbitrary: n)
  case Nil
  then show ?case by simp
next
  case (Cons x xs)
  have "[n ..< n + length (x # xs)] = n # [Suc n ..< Suc n + length xs]"
    by (simp add: upt_conv_Cons del: upt_Suc)
  then show ?case using Cons.IH [of "Suc n"] by simp
qed

text \<open>The state after \<open>N\<close> requests for a content the client does not have.\<close>

lemma requests_new:
  assumes "m \<noteq> []" and "client_get ih m s = None" and "client_ok s"
  shows "run ih (map (Request (Some m)) (rng # rngs)) s =
           s\<lparr>next_rid := next_rid s + length (rng # rngs),
             heap := (heap s)(next_tid s := \<lparr>infoHash = ih m, ready = False, destroyed = False,
                                            files = [], error_listeners = 0\<rparr>),
             next_tid := Suc (next_tid s),
             client_torrents := client_torrents s @ [next_tid s],
             add_calls := Suc (add_calls s),
             waiting := waiting s @
               \<lparr>p_rid = next_rid s, p_torrent = next_tid s, p_await = OnTorrent, p_range = rng\<rparr> #
               map (\<lambda>(i, rng). \<lparr>p_rid = i, p_torrent = next_tid s, p_await = OnceReady,
                                 p_range = rng\<rparr>)
                 (enumerate (Suc (next_rid s)) rngs)\<rparr>"
proof -
  let ?s1 = "request ih (Some m) rng s"
  have g: "client_get ih m ?s1 = Some (next_tid s)"
    using request_adds_get [OF assms] .
  have r: "\<not> ready (heap ?s1 (next_tid s))"
    by (simp add: request_adds [OF assms(1,2)])
  have "run ih (map (Request (Some m)) (rng # rngs)) s = run ih (map (Request (Some m)) rngs) ?s1"
    by (simp add: run_def)
  also have "\<dots> = ?s1\<lparr>next_rid := next_rid ?s1 + length rngs,
             waiting := waiting ?s1 @
               map (\<lambda>(i, rng). \<lparr>p_rid = i, p_torrent = next_tid s, p_await = OnceReady,
                                 p_range = rng\<rparr>)
                 (enumerate (next_rid ?s1) rngs)\<rparr>"
    using requests_wait [OF assms(1) g r] .
  finally show ?thesis
    by (simp add: request_adds [OF assms(1,2)])
qed

text \<open>
  C1. Node runs each handler without interruption up to its \<open>await\<close>, so \<open>N\<close> concurrent
  requests are \<open>N\<close> arrivals before the engine reports the torrent ready. When the client
  does not have the content (\<open>client.get\<close> finds nothing), \<open>N \<ge> 1\<close> requests for the
  same magnet call \<open>client.add\<close> exactly once; all \<open>N\<close> handlers wait for that one new
  torrent; and when the engine reports it ready, every one of them gets its response,
  streamed from that torrent when it holds a playable file. The count is still one then.
\<close>

theorem dedup:
  fixes fs :: "torrent_file list"
  assumes "client_ok s" and "m \<noteq> []" and "client_get ih m s = None" and "rngs \<noteq> []"
  defines "s' \<equiv> run ih (map (Request (Some m)) rngs) s"
  defines "s'' \<equiv> torrent_ready (next_tid s) fs s'"
  shows "add_calls s' = add_calls s + 1
    \<and> add_calls s'' = add_calls s + 1
    \<and> (\<exists>ps. waiting s' = waiting s @ ps
           \<and> map p_rid ps = [next_rid s ..< next_rid s + length rngs]
           \<and> (\<forall>p \<in> set ps. p_torrent p = next_tid s))
    \<and> (\<forall>i < length rngs. responses s'' (next_rid s + i) \<noteq> None)
    \<and> (find_playable fs \<noteq> None \<longrightarrow>
           (\<forall>i < length rngs.
              streams s'' (next_rid s + i)
                = Some \<lparr>source = next_tid s, stream_destroyed = False\<rparr>))"
proof -
  obtain rng rest where rngs: "rngs = rng # rest"
    using assms(4) by (cases rngs) auto
  let ?t = "next_tid s"
  let ?new = "\<lparr>p_rid = next_rid s, p_torrent = ?t, p_await = OnTorrent, p_range = rng\<rparr> #
               map (\<lambda>(i, rng). \<lparr>p_rid = i, p_torrent = ?t, p_await = OnceReady, p_range = rng\<rparr>)
                 (enumerate (Suc (next_rid s)) rest)"
  have s': "s' = s\<lparr>next_rid := next_rid s + length (rng # rest),
             heap := (heap s)(?t := \<lparr>infoHash = ih m, ready = False, destroyed = False,
                                            files = [], error_listeners = 0\<rparr>),
             next_tid := Suc ?t,
             client_torrents := client_torrents s @ [?t],
             add_calls := Suc (add_calls s),
             waiting := waiting s @ ?new\<rparr>"
    unfolding s'_def rngs using requests_new [OF assms(2,3,1)] .
  have a: "add_calls s' = add_calls s + 1"
    by (simp add: s')
  have rids: "map p_rid ?new = [next_rid s ..< next_rid s + length rngs]"
  proof -
    have "[next_rid s ..< next_rid s + length rngs]
        = next_rid s # [Suc (next_rid s) ..< Suc (next_rid s) + length rest]"
      by (simp add: rngs upt_conv_Cons del: upt_Suc)
    then show ?thesis
      using map_rid_enumerate [of ?t OnceReady "Suc (next_rid s)" rest] by simp
  qed
  have tor: "\<forall>p \<in> set ?new. p_torrent p = ?t"
    by auto
  have b: "\<exists>ps. waiting s' = waiting s @ ps \<and> map p_rid ps = [next_rid s ..< next_rid s + length rngs]
           \<and> (\<forall>p \<in> set ps. p_torrent p = next_tid s)"
    using rids tor by (intro exI [of _ ?new]) (simp add: s')
  let ?base = "s'\<lparr>heap := (heap s')(?t := (heap s' ?t)\<lparr>ready := True, files := fs\<rparr>),
             waiting := filter (\<lambda>p. p_torrent p \<noteq> ?t) (waiting s')\<rparr>"
  let ?ps = "filter (\<lambda>p. p_torrent p = ?t) (waiting s')"
  have s'': "s'' = fold (\<lambda>p. serve (p_rid p) ?t (p_range p)) ?ps ?base"
    unfolding s''_def torrent_ready_def by (simp add: s')
  have c: "add_calls s'' = add_calls s + 1"
    using a by (simp add: s'')
  have mem: "next_rid s + i \<in> p_rid ` set ?ps" if "i < length rngs" for i
  proof -
    have "next_rid s + i \<in> set [next_rid s ..< next_rid s + length rngs]"
      using that by simp
    then have "next_rid s + i \<in> set (map p_rid ?new)"
      by (simp only: rids)
    then have "next_rid s + i \<in> p_rid ` set ?new"
      by (simp only: set_map)
    moreover have "set ?new \<subseteq> set ?ps"
      using tor by (auto simp: s')
    ultimately show ?thesis by blast
  qed
  have d: "\<forall>i < length rngs. responses s'' (next_rid s + i) \<noteq> None"
    using mem by (simp add: s'' resume_responses)
  have e: "find_playable fs \<noteq> None \<longrightarrow>
           (\<forall>i < length rngs.
              streams s'' (next_rid s + i) = Some \<lparr>source = next_tid s, stream_destroyed = False\<rparr>)"
  proof (intro impI allI)
    fix i assume f: "find_playable fs \<noteq> None" and i: "i < length rngs"
    have "find_playable (files (heap ?base ?t)) \<noteq> None"
      using f by simp
    then show "streams s'' (next_rid s + i) = Some \<lparr>source = next_tid s, stream_destroyed = False\<rparr>"
      unfolding s'' using mem [OF i] by (intro resume_streams) auto
  qed
  show ?thesis using a b c d e by blast
qed


theorem dedup_witness:
  "client_ok init \<and> sample_magnet \<noteq> []
   \<and> client_get (\<lambda>m. m) sample_magnet init = None
   \<and> add_calls (run (\<lambda>m. m)
         (map (Request (Some sample_magnet)) [None, Some ''bytes=0-'', None]) init) = 1
   \<and> add_calls (torrent_ready 0 [sample_video] (run (\<lambda>m. m)
         (map (Request (Some sample_magnet)) [None, Some ''bytes=0-'', None]) init)) = 1
   \<and> responses (torrent_ready 0 [sample_video] (run (\<lambda>m. m)
         (map (Request (Some sample_magnet)) [None, Some ''bytes=0-'', None]) init)) 0 \<noteq> None
   \<and> responses (torrent_ready 0 [sample_video] (run (\<lambda>m. m)
         (map (Request (Some sample_magnet)) [None, Some ''bytes=0-'', None]) init)) 2 \<noteq> None
   \<and> streams (torrent_ready 0 [sample_video] (run (\<lambda>m. m)
         (map (Request (Some sample_magnet)) [None, Some ''bytes=0-'', None]) init)) 0
       = Some \<lparr>source = 0, stream_destroyed = False\<rparr>
   \<and> streams (torrent_ready 0 [sample_video] (run (\<lambda>m. m)
         (map (Request (Some sample_magnet)) [None, Some ''bytes=0-'', None]) init)) 2
       = Some \<lparr>source = 0, stream_destroyed = False\<rparr>"
proof -
  have h1: "client_ok init"
    by (simp add: client_ok_def init_def)
  have h2: "sample_magnet \<noteq> []"
    by (simp add: sample_magnet_def)
  have h3: "client_get (\<lambda>m. m) sample_magnet init = None"
    by (simp add: client_get_def init_def)
  have h4: "[None, Some ''bytes=0-'', None] \<noteq> []"
    by simp
  have n: "next_tid init = 0" "next_rid init = 0" "add_calls init = 0"
    by (simp_all add: init_def)
  have f: "find_playable [sample_video] \<noteq> None"
    by (simp add: sample_find)
  have i: "(0::nat) < length [None, Some ''bytes=0-'', None :: string option]"
    "(2::nat) < length [None, Some ''bytes=0-'', None :: string option]"
    by simp_all
  show ?thesis
    using dedup [OF h1 h2 h3 h4, of "[sample_video]"] h1 h2 h3 f i
    unfolding n by (metis add_0)
qed

section \<open>Eviction on a fatal error\<close>

subsection \<open>A torrent off the client's list stays off\<close>

lemma torrent_destroy_frame [simp]:
  "next_tid (torrent_destroy t s) = next_tid s"
  "client_torrents (torrent_destroy t s) = removeAll t (client_torrents s)"
  "infoHash (heap (torrent_destroy t s) u) = infoHash (heap s u)"
  "activeTorrents (torrent_destroy t s) = activeTorrents s"
  "destroyed (heap (torrent_destroy t s) u) = (u = t \<or> destroyed (heap s u))"
  by (simp_all add: torrent_destroy_def)

lemma on_error_frame [simp]:
  "next_tid (on_error t s) = next_tid s"
  "add_calls (on_error t s) = add_calls s"
  "infoHash (heap (on_error t s) u) = infoHash (heap s u)"
  by (simp_all add: on_error_def torrent_destroy_def Let_def)

lemma on_error_client: "set (client_torrents (on_error t s)) \<subseteq> set (client_torrents s)"
  by (auto simp: on_error_def Let_def)

lemma on_timeout_eq: "on_timeout = on_error"
  by (intro ext) (simp add: on_timeout_def on_error_def)

lemma off_list_on_error: "off_list t s \<Longrightarrow> off_list t (on_error u s)"
  using on_error_client [of u s] by (auto simp: off_list_def)

lemma off_list_errors: "off_list t s \<Longrightarrow> off_list t ((on_error u ^^ n) s)"
  by (induction n) (simp_all add: off_list_on_error)

lemma off_list_timeouts:
  "off_list t s \<Longrightarrow> off_list t (fold (\<lambda>tm. on_timeout (target tm)) tms s)"
  by (induction tms arbitrary: s) (simp_all add: off_list_on_error on_timeout_eq)

lemma off_list_keep: "off_list t s \<Longrightarrow> off_list t (keepTorrentAlive u s)"
  by (simp add: off_list_def)

lemma off_list_serve: "off_list t s \<Longrightarrow> off_list t (serve r u rng s)"
  by (simp add: off_list_def)

lemma off_list_resume:
  "off_list t s \<Longrightarrow> off_list t (fold (\<lambda>p. serve (p_rid p) u (p_range p)) ps s)"
  by (simp add: off_list_def)

lemma off_list_request: "off_list t s \<Longrightarrow> off_list t (request ih mg rng s)"
  by (auto simp: off_list_def request_def client_add_def suspend_def Let_def
      split: option.split)

lemma off_list_step: "off_list t s \<Longrightarrow> off_list t (step ih e s)"
proof (cases e)
  case (Request mg rng)
  then show "off_list t s \<Longrightarrow> ?thesis" by (simp add: off_list_request)
next
  case (Ready u fs)
  assume o: "off_list t s"
  have "off_list t (s\<lparr>heap := (heap s)(u := (heap s u)\<lparr>ready := True, files := fs\<rparr>),
             waiting := filter (\<lambda>p. p_torrent p \<noteq> u) (waiting s)\<rparr>)"
    using o by (simp add: off_list_def)
  then show ?thesis
    using o Ready by (simp add: torrent_ready_def off_list_resume)
next
  case (TorrentError u)
  then show "off_list t s \<Longrightarrow> ?thesis" by (simp add: torrent_error_def off_list_errors)
next
  case (Close r)
  then show "off_list t s \<Longrightarrow> ?thesis"
    by (simp add: on_close_def off_list_def split: option.split)
next
  case (StreamError r)
  then show "off_list t s \<Longrightarrow> ?thesis"
    by (simp add: on_stream_error_def off_list_def split: option.split)
next
  case (Elapse d)
  assume o: "off_list t s"
  have "off_list t (s\<lparr>now := now s + d,
      timers := filter (\<lambda>tm. \<not> deadline tm \<le> now s + d) (timers s)\<rparr>)"
    using o by (simp add: off_list_def)
  then show ?thesis
    using Elapse by (simp add: elapse_def Let_def off_list_timeouts)
qed

lemma off_list_run: "off_list t s \<Longrightarrow> off_list t (run ih evs s)"
  unfolding run_def by (induction evs arbitrary: s) (simp_all add: off_list_step)

lemma client_get_on_list: "client_get ih m s = Some t \<Longrightarrow> t \<in> set (client_torrents s)"
  by (auto simp: client_get_def find_Some_iff)

lemma client_get_hash: "client_get ih m s = Some t \<Longrightarrow> infoHash (heap s t) = ih m"
  by (auto simp: client_get_def find_Some_iff)

subsection \<open>The error listeners\<close>

lemma on_error_idem: "on_error t (on_error t s) = on_error t s"
  by (simp add: on_error_def torrent_destroy_def Let_def)

lemma on_error_funpow: "0 < n \<Longrightarrow> (on_error t ^^ n) s = on_error t s"
proof (induction n)
  case 0
  then show ?case by simp
next
  case (Suc n)
  show ?case
  proof (cases "n = 0")
    case True
    then show ?thesis by simp
  next
    case False
    then have "(on_error t ^^ n) s = on_error t s" using Suc.IH by simp
    then show ?thesis by (simp add: on_error_idem)
  qed
qed

lemma on_error_effect:
  assumes "t \<in> set (client_torrents s)" and "client_ok s"
  shows "destroyed (heap (on_error t s) t)"
    and "t \<notin> set (client_torrents (on_error t s))"
    and "activeTorrents (on_error t s) (infoHash (heap s t)) = None"
    and "set (client_torrents (on_error t s)) \<subseteq> set (client_torrents s) - {t}"
  using assms by (auto simp: on_error_def Let_def torrent_destroy_def client_ok_def list_all_iff)


subsection \<open>The allocation invariant holds in every run\<close>

lemma client_ok_cong:
  assumes "client_ok s" and "next_tid s' = next_tid s" and "client_torrents s' = client_torrents s"
    and "\<And>u. infoHash (heap s' u) = infoHash (heap s u)"
    and "\<And>u. destroyed (heap s' u) = destroyed (heap s u)"
  shows "client_ok s'"
  using assms by (simp add: client_ok_def)

lemma client_ok_keep: "client_ok s \<Longrightarrow> client_ok (keepTorrentAlive t s)"
  by (erule client_ok_cong) simp_all

lemma client_ok_serve: "client_ok s \<Longrightarrow> client_ok (serve r t rng s)"
  by (erule client_ok_cong) simp_all

lemma client_ok_resume:
  "client_ok s \<Longrightarrow> client_ok (fold (\<lambda>p. serve (p_rid p) t (p_range p)) ps s)"
  by (induction ps arbitrary: s) (simp_all add: client_ok_serve)

lemma client_ok_destroy: "client_ok s \<Longrightarrow> client_ok (torrent_destroy t s)"
  by (auto simp: client_ok_def list_all_iff removeAll_filter_not_eq distinct_map_filter)

lemma client_ok_on_error: "client_ok s \<Longrightarrow> client_ok (on_error t s)"
proof -
  assume ok: "client_ok s"
  let ?s1 = "if \<not> destroyed (heap s t) then torrent_destroy t s else s"
  have "client_ok ?s1" using ok by (simp add: client_ok_destroy)
  then have "client_ok (?s1\<lparr>activeTorrents := (activeTorrents ?s1)(infoHash (heap ?s1 t) := None)\<rparr>)"
    by (rule client_ok_cong) simp_all
  then show ?thesis by (simp add: on_error_def Let_def)
qed

lemma client_ok_errors: "client_ok s \<Longrightarrow> client_ok ((on_error t ^^ n) s)"
  by (induction n) (simp_all add: client_ok_on_error)

lemma client_ok_timeouts:
  "client_ok s \<Longrightarrow> client_ok (fold (\<lambda>tm. on_timeout (target tm)) tms s)"
  by (induction tms arbitrary: s) (simp_all add: client_ok_on_error on_timeout_eq)

lemma client_ok_add:
  assumes "client_ok s" and "client_get ih m s = None"
  shows "client_ok (snd (client_add ih m s))"
proof -
  have old: "\<forall>u \<in> set (client_torrents s). u < next_tid s \<and> \<not> destroyed (heap s u)
      \<and> infoHash (heap s u) \<noteq> ih m"
    using assms by (auto simp: client_ok_def list_all_iff client_get_def find_None_iff)
  have d: "distinct (map (\<lambda>u. infoHash (heap s u)) (client_torrents s))"
    using assms(1) by (simp add: client_ok_def)
  have same: "map (\<lambda>u. infoHash (if u = next_tid s
        then \<lparr>infoHash = ih m, ready = False, destroyed = False, files = [], error_listeners = 0\<rparr>
        else heap s u)) (client_torrents s) = map (\<lambda>u. infoHash (heap s u)) (client_torrents s)"
    using old by (intro map_cong) auto
  show ?thesis
    using old d by (auto simp: client_ok_def client_add_def Let_def list_all_iff same)
qed

lemma client_ok_request: "client_ok s \<Longrightarrow> client_ok (request ih mg rng s)"
proof -
  assume ok: "client_ok s"
  let ?s = "s\<lparr>next_rid := next_rid s + 1\<rparr>"
  have ok': "client_ok ?s" using ok by (rule client_ok_cong) simp_all
  have resp: "client_ok (x\<lparr>responses := f\<rparr>)" if "client_ok x" for x f
    using that by (rule client_ok_cong) simp_all
  have susp: "client_ok (suspend r t a rng x)" if "client_ok x" for x r t a
    using that unfolding suspend_def by (rule client_ok_cong) simp_all
  show ?thesis
  proof (cases mg)
    case None
    then show ?thesis using resp [OF ok'] by (simp add: request_def Let_def)
  next
    case (Some m)
    show ?thesis
    proof (cases "m = []")
      case True
      then show ?thesis using Some resp [OF ok'] by (simp add: request_def Let_def)
    next
      case False
      show ?thesis
      proof (cases "client_get ih m ?s")
        case None
        have "client_ok (snd (client_add ih m ?s))"
          using client_ok_add [OF ok' None] .
        then show ?thesis
          using \<open>mg = Some m\<close> False None susp
          by (auto simp: request_def Let_def split: prod.split)
      next
        case (Some t)
        then show ?thesis
          using \<open>mg = Some m\<close> False susp [OF ok'] client_ok_serve [OF ok']
          by (simp add: request_def Let_def)
      qed
    qed
  qed
qed

lemma client_ok_step: "client_ok s \<Longrightarrow> client_ok (step ih e s)"
proof (cases e)
  case (Request mg rng)
  then show "client_ok s \<Longrightarrow> ?thesis" by (simp add: client_ok_request)
next
  case (Ready u fs)
  assume ok: "client_ok s"
  have "client_ok (s\<lparr>heap := (heap s)(u := (heap s u)\<lparr>ready := True, files := fs\<rparr>),
             waiting := filter (\<lambda>p. p_torrent p \<noteq> u) (waiting s)\<rparr>)"
    using ok by (rule client_ok_cong) simp_all
  then show ?thesis
    using ok Ready by (simp add: torrent_ready_def client_ok_resume)
next
  case (TorrentError u)
  then show "client_ok s \<Longrightarrow> ?thesis" by (simp add: torrent_error_def client_ok_errors)
next
  case (Close r)
  assume ok: "client_ok s"
  have "client_ok (s\<lparr>streams := f\<rparr>)" for f
    using ok by (rule client_ok_cong) simp_all
  then show ?thesis
    using ok Close by (simp add: on_close_def client_ok_keep split: option.split)
next
  case (StreamError r)
  then show "client_ok s \<Longrightarrow> ?thesis"
    by (simp add: on_stream_error_def client_ok_keep split: option.split)
next
  case (Elapse d)
  assume ok: "client_ok s"
  have "client_ok (s\<lparr>now := now s + d,
      timers := filter (\<lambda>tm. \<not> deadline tm \<le> now s + d) (timers s)\<rparr>)"
    using ok by (rule client_ok_cong) simp_all
  then show ?thesis
    using Elapse by (simp add: elapse_def Let_def client_ok_timeouts)
qed

lemma client_ok_run: "client_ok s \<Longrightarrow> client_ok (run ih evs s)"
  unfolding run_def by (induction evs arbitrary: s) (simp_all add: client_ok_step)

lemma client_ok_init: "client_ok init"
  by (simp add: client_ok_def init_def)

lemma client_ok_reachable: "client_ok (run ih evs init)"
  using client_ok_init by (rule client_ok_run)

lemma find_none_after_remove:
  assumes "distinct (map h xs)" and "t \<in> set xs" and "set ys \<subseteq> set xs - {t}"
  shows "find (\<lambda>x. h x = h t) ys = None"
proof -
  have "\<forall>x \<in> set ys. h x \<noteq> h t"
    using assms by (metis Diff_iff distinct_map inj_on_def insertI1 subsetD)
  then show ?thesis by (simp add: find_None_iff)
qed

text \<open>
  The session \<open>t\<close> of the magnet \<open>m\<close> is on the client's list and has served a
  stream, so that the listener of line 153 is registered on it. When it emits \<open>error\<close>,
  it is destroyed and the entry of its info hash leaves the cache table; the client no
  longer has the content, so the next request for \<open>m\<close> calls \<open>client.add\<close> and waits for
  a new torrent, different from \<open>t\<close>; and whatever happens later, no request is ever
  given \<open>t\<close> again.
\<close>

lemma error_listener_evicts:
  assumes "0 < error_listeners (heap s t)" and "client_ok s" and "m \<noteq> []"
    and "client_get ih m s = Some t"
  shows "destroyed (heap (torrent_error t s) t)
     \<and> activeTorrents (torrent_error t s) (ih m) = None
     \<and> client_get ih m (torrent_error t s) = None
     \<and> add_calls (request ih (Some m) rng (torrent_error t s)) = add_calls s + 1
     \<and> client_get ih m (request ih (Some m) rng (torrent_error t s)) = Some (next_tid s)
     \<and> next_tid s \<noteq> t
     \<and> (\<forall>evs. client_get ih m (run ih evs (torrent_error t s)) \<noteq> Some t)"
proof -
  let ?s' = "torrent_error t s"
  have on: "t \<in> set (client_torrents s)" and hash: "infoHash (heap s t) = ih m"
    using assms(4) client_get_on_list client_get_hash by auto
  have s': "?s' = on_error t s"
    using assms(1) by (simp add: torrent_error_def on_error_funpow)
  note eff = on_error_effect [OF on assms(2)]
  have alloc: "t < next_tid s"
    using on assms(2) by (auto simp: client_ok_def list_all_iff)
  have a: "destroyed (heap ?s' t)"
    using eff(1) by (simp add: s')
  have b: "activeTorrents ?s' (ih m) = None"
    using eff(3) by (simp add: s' hash)
  have c: "client_get ih m ?s' = None"
  proof -
    have "distinct (map (\<lambda>u. infoHash (heap s u)) (client_torrents s))"
      using assms(2) by (simp add: client_ok_def)
    from find_none_after_remove [OF this on eff(4)]
    show ?thesis by (simp add: client_get_def s' hash)
  qed
  have ok: "client_ok ?s'"
    using assms(2) unfolding s' by (rule client_ok_on_error)
  have d: "add_calls (request ih (Some m) rng ?s') = add_calls s + 1"
    using c unfolding s' by (simp add: request_adds [OF assms(3)])
  have e: "client_get ih m (request ih (Some m) rng ?s') = Some (next_tid s)"
    using request_adds_get [OF assms(3) c ok, of rng] unfolding s' by simp
  have f: "next_tid s \<noteq> t"
    using alloc by simp
  have g: "\<forall>evs. client_get ih m (run ih evs ?s') \<noteq> Some t"
  proof
    fix evs
    have "off_list t ?s'"
      using alloc eff(2) by (simp add: off_list_def s')
    then have "off_list t (run ih evs ?s')"
      by (rule off_list_run)
    then show "client_get ih m (run ih evs ?s') \<noteq> Some t"
      using client_get_on_list [of ih m "run ih evs ?s'" t] by (auto simp: off_list_def)
  qed
  show ?thesis using a b c d e f g by blast
qed


lemma sample_state_facts:
  "error_listeners (heap sample_state 0) = 1"
  "client_get (\<lambda>m. m) sample_magnet sample_state = Some 0"
  "add_calls sample_state = 1"
  "next_tid sample_state = 1"
  "next_rid sample_state = 1"
  "next_timer sample_state = 1"
  "now sample_state = 0"
  "ready (heap sample_state 0)"
  "streams sample_state 0 = Some \<lparr>source = 0, stream_destroyed = False\<rparr>"
  "activeTorrents sample_state sample_magnet = Some \<lparr>torrent = 0, timeout = 0\<rparr>"
  "timers sample_state = [\<lparr>timer_id = 0, deadline = 600000, target = 0\<rparr>]"
  by (simp_all add: sample_state_def handler_defs)

lemma sample_state_ok: "client_ok sample_state"
  unfolding sample_state_def by (rule client_ok_reachable)

lemma error_listener_evicts_sample:
  "0 < error_listeners (heap sample_state 0) \<and> client_ok sample_state \<and> sample_magnet \<noteq> []
   \<and> client_get (\<lambda>m. m) sample_magnet sample_state = Some 0
   \<and> destroyed (heap (torrent_error 0 sample_state) 0)
   \<and> activeTorrents (torrent_error 0 sample_state) sample_magnet = None
   \<and> client_get (\<lambda>m. m) sample_magnet (torrent_error 0 sample_state) = None
   \<and> add_calls (request (\<lambda>m. m) (Some sample_magnet) None (torrent_error 0 sample_state)) = 2
   \<and> client_get (\<lambda>m. m) sample_magnet
        (request (\<lambda>m. m) (Some sample_magnet) None (torrent_error 0 sample_state)) = Some 1"
proof -
  have h1: "0 < error_listeners (heap sample_state 0)"
    by (simp add: sample_state_facts)
  have h3: "sample_magnet \<noteq> []"
    by (simp add: sample_magnet_def)
  show ?thesis
    using error_listener_evicts [OF h1 sample_state_ok h3 sample_state_facts(2), of None]
      h1 sample_state_ok h3
    by (simp add: sample_state_facts)
qed

subsection \<open>A session without the listener\<close>


section \<open>The sliding time to live\<close>

text \<open>
  C2 says that every refresh cancels the timer armed before it, so that an entry never
  has two live timers, and that an entry refreshed at \<open>t\<close> and at \<open>t + \<Delta>\<close> is evicted
  at \<open>t + \<Delta> + TTL\<close> and not before. This does not hold of the code. The error
  listener (lines 153 to 157) deletes the entry
  of the session without clearing its timer. In the run below the first session fails at
  time 0 and leaves its timer 0 pending. The second session is refreshed at 1000 ms, with
  timer 1 due at 601000 ms: two timers are live for the one key. At 600000 ms timer 0 fires
  and deletes the entry of the second session, 1000 ms early. The request that arrives
  then calls \<open>keepTorrentAlive\<close> for the second session, which finds no entry, clears
  nothing and arms timer 2: timers 1 and 2 are both live for the entry. At 601000 ms
  timer 1 fires and destroys the session, one second after its refresh.
\<close>

theorem stale_timer_evicts_refreshed_session:
  "now (run (\<lambda>m. m) (take 6 stale_timer_trace) init) = 1000
   \<and> timers (run (\<lambda>m. m) (take 6 stale_timer_trace) init)
       = [\<lparr>timer_id = 0, deadline = 600000, target = 0\<rparr>,
          \<lparr>timer_id = 1, deadline = 601000, target = 1\<rparr>]
   \<and> activeTorrents (run (\<lambda>m. m) (take 6 stale_timer_trace) init) sample_magnet
       = Some \<lparr>torrent = 1, timeout = 1\<rparr>
   \<and> now (run (\<lambda>m. m) (take 7 stale_timer_trace) init) = 600000
   \<and> activeTorrents (run (\<lambda>m. m) (take 7 stale_timer_trace) init) sample_magnet = None
   \<and> now (run (\<lambda>m. m) stale_timer_trace init) = 600000
   \<and> add_calls (run (\<lambda>m. m) stale_timer_trace init) = 2
   \<and> \<not> destroyed (heap (run (\<lambda>m. m) stale_timer_trace init) 1)
   \<and> activeTorrents (run (\<lambda>m. m) stale_timer_trace init) sample_magnet
       = Some \<lparr>torrent = 1, timeout = 2\<rparr>
   \<and> timers (run (\<lambda>m. m) stale_timer_trace init)
       = [\<lparr>timer_id = 1, deadline = 601000, target = 1\<rparr>,
          \<lparr>timer_id = 2, deadline = 1200000, target = 1\<rparr>]
   \<and> now (run (\<lambda>m. m) (stale_timer_trace @ [Elapse 1000]) init) = 601000
   \<and> destroyed (heap (run (\<lambda>m. m) (stale_timer_trace @ [Elapse 1000]) init) 1)
   \<and> activeTorrents (run (\<lambda>m. m) (stale_timer_trace @ [Elapse 1000]) init) sample_magnet = None"
  by (simp add: stale_timer_trace_def handler_defs)

subsection \<open>What holds without a stale timer\<close>

text \<open>
  When every pending timer of a key is the one its entry records, \<open>keepTorrentAlive\<close>
  leaves exactly one timer for the key, and two refreshes less than the time to live apart
  keep the session until the time to live has passed since the second, and no longer.
\<close>

lemma keepTorrentAlive_single_timer:
  assumes "no_stale k s" and "infoHash (heap s t) = k"
  shows "key_timers k (keepTorrentAlive t s)
           = [\<lparr>timer_id = next_timer s, deadline = now s + TORRENT_TTL, target = t\<rparr>]"
    and "no_stale k (keepTorrentAlive t s)"
    and "activeTorrents (keepTorrentAlive t s) k = Some \<lparr>torrent = t, timeout = next_timer s\<rparr>"
proof -
  let ?ts = "case activeTorrents s k of
               Some existing \<Rightarrow> clearTimeout (timeout existing) (timers s)
             | None \<Rightarrow> timers s"
  let ?new = "\<lparr>timer_id = next_timer s, deadline = now s + TORRENT_TTL, target = t\<rparr>"
  have t: "timers (keepTorrentAlive t s) = ?ts @ [?new]"
    using assms(2) by (simp add: keepTorrentAlive_def Let_def)
  have old: "filter (\<lambda>tm. infoHash (heap s (target tm)) = k) ?ts = []"
  proof (cases "activeTorrents s k")
    case None
    then show ?thesis
      using assms(1) by (auto simp: no_stale_def key_timers_def filter_empty_conv)
  next
    case (Some e)
    then show ?thesis
      using assms(1)
      by (auto simp: no_stale_def key_timers_def filter_empty_conv clearTimeout_def)
  qed
  show 1: "key_timers k (keepTorrentAlive t s) = [?new]"
    using old assms(2) by (simp add: key_timers_def t)
  show 3: "activeTorrents (keepTorrentAlive t s) k = Some \<lparr>torrent = t, timeout = next_timer s\<rparr>"
    using assms(2) by (simp add: keepTorrentAlive_def Let_def)
  have sub: "set ?ts \<subseteq> set (timers s)"
    by (auto simp: clearTimeout_def split: option.split)
  have ids: "\<forall>tm \<in> set (timers (keepTorrentAlive t s)). timer_id tm < next_timer (keepTorrentAlive t s)"
  proof -
    have "next_timer (keepTorrentAlive t s) = next_timer s + 1"
      by (simp add: keepTorrentAlive_def Let_def)
    then show ?thesis
      using assms(1) sub by (auto simp: no_stale_def t less_Suc_eq)
  qed
  show "no_stale k (keepTorrentAlive t s)"
    unfolding no_stale_def using ids 1 3 by simp
qed

lemma on_timeout_frame [simp]:
  "infoHash (heap (on_timeout u s) v) = infoHash (heap s v)"
  "timers (on_timeout u s) = timers s"
  "next_timer (on_timeout u s) = next_timer s"
  "now (on_timeout u s) = now s"
  by (simp_all add: on_timeout_def torrent_destroy_def Let_def)

lemma timeouts_frame [simp]:
  "infoHash (heap (fold (\<lambda>tm. on_timeout (target tm)) tms s) v) = infoHash (heap s v)"
  "timers (fold (\<lambda>tm. on_timeout (target tm)) tms s) = timers s"
  "next_timer (fold (\<lambda>tm. on_timeout (target tm)) tms s) = next_timer s"
  "now (fold (\<lambda>tm. on_timeout (target tm)) tms s) = now s"
  by (induction tms arbitrary: s) simp_all

lemma on_timeout_other:
  assumes "infoHash (heap s u) \<noteq> k"
  shows "activeTorrents (on_timeout u s) k = activeTorrents s k"
    and "infoHash (heap s t) = k \<Longrightarrow> destroyed (heap (on_timeout u s) t) = destroyed (heap s t)"
  using assms by (auto simp: on_timeout_def torrent_destroy_def Let_def)

lemma timeouts_other:
  assumes "\<forall>tm \<in> set tms. infoHash (heap s (target tm)) \<noteq> k"
  shows "activeTorrents (fold (\<lambda>tm. on_timeout (target tm)) tms s) k = activeTorrents s k
    \<and> (infoHash (heap s t) = k \<longrightarrow>
         destroyed (heap (fold (\<lambda>tm. on_timeout (target tm)) tms s) t) = destroyed (heap s t))"
  using assms
proof (induction tms arbitrary: s)
  case Nil
  then show ?case by simp
next
  case (Cons tm tms)
  have h: "infoHash (heap s (target tm)) \<noteq> k"
    using Cons.prems by simp
  have "\<forall>x \<in> set tms. infoHash (heap (on_timeout (target tm) s) (target x)) \<noteq> k"
    using Cons.prems by simp
  from Cons.IH [OF this] on_timeout_other [OF h]
  show ?case by simp
qed

lemma on_timeout_gone:
  "activeTorrents (on_timeout u s) (infoHash (heap s u)) = None"
  "destroyed (heap (on_timeout u s) u)"
  "activeTorrents s k = None \<Longrightarrow> activeTorrents (on_timeout u s) k = None"
  "destroyed (heap s t) \<Longrightarrow> destroyed (heap (on_timeout u s) t)"
  by (auto simp: on_timeout_def torrent_destroy_def Let_def)

lemma timeouts_keep_gone:
  "activeTorrents s k = None \<Longrightarrow>
     activeTorrents (fold (\<lambda>tm. on_timeout (target tm)) tms s) k = None"
  "destroyed (heap s t) \<Longrightarrow> destroyed (heap (fold (\<lambda>tm. on_timeout (target tm)) tms s) t)"
  by (induction tms arbitrary: s) (simp_all add: on_timeout_gone)

lemma timeouts_gone:
  assumes "tm \<in> set tms"
  shows "activeTorrents (fold (\<lambda>tm. on_timeout (target tm)) tms s)
           (infoHash (heap s (target tm))) = None
    \<and> destroyed (heap (fold (\<lambda>tm. on_timeout (target tm)) tms s) (target tm))"
  using assms
proof (induction tms arbitrary: s)
  case Nil
  then show ?case by simp
next
  case (Cons x tms)
  show ?case
  proof (cases "tm = x")
    case True
    then show ?thesis
      by (simp add: timeouts_keep_gone on_timeout_gone)
  next
    case False
    then have "tm \<in> set tms" using Cons.prems by simp
    from Cons.IH [OF this, of "on_timeout (target x) s"]
    show ?thesis by simp
  qed
qed

text \<open>One timer is pending for the key, and it belongs to the entry of a live session.\<close>

lemma elapse_before_deadline:
  assumes "key_timers k s = [tm]" and "now s + d < deadline tm"
    and "infoHash (heap s t) = k"
  shows "activeTorrents (elapse d s) k = activeTorrents s k"
    and "destroyed (heap (elapse d s) t) = destroyed (heap s t)"
    and "key_timers k (elapse d s) = [tm]"
    and "next_timer (elapse d s) = next_timer s"
    and "set (timers (elapse d s)) \<subseteq> set (timers s)"
    and "now (elapse d s) = now s + d"
    and "infoHash (heap (elapse d s) v) = infoHash (heap s v)"
proof -
  let ?due = "filter (\<lambda>x. deadline x \<le> now s + d) (timers s)"
  let ?s0 = "s\<lparr>now := now s + d, timers := filter (\<lambda>x. \<not> deadline x \<le> now s + d) (timers s)\<rparr>"
  have e: "elapse d s = fold (\<lambda>x. on_timeout (target x)) ?due ?s0"
    by (simp add: elapse_def Let_def)
  have only: "\<forall>x \<in> set (timers s). infoHash (heap s (target x)) = k \<longrightarrow> x = tm"
  proof (intro ballI impI)
    fix x assume "x \<in> set (timers s)" "infoHash (heap s (target x)) = k"
    then have "x \<in> set (key_timers k s)" by (simp add: key_timers_def)
    then show "x = tm" by (simp add: assms(1))
  qed
  have other: "\<forall>x \<in> set ?due. infoHash (heap ?s0 (target x)) \<noteq> k"
    using only assms(2) by auto
  note o = timeouts_other [OF other, of t]
  show "activeTorrents (elapse d s) k = activeTorrents s k"
    using o by (simp add: e)
  show "destroyed (heap (elapse d s) t) = destroyed (heap s t)"
    using o assms(3) by (simp add: e)
  have "filter (\<lambda>x. infoHash (heap s (target x)) = k)
          (filter (\<lambda>x. \<not> deadline x \<le> now s + d) (timers s))
        = filter (\<lambda>x. \<not> deadline x \<le> now s + d) (key_timers k s)"
    by (simp add: key_timers_def conj_commute)
  then show "key_timers k (elapse d s) = [tm]"
    using assms(2) by (simp add: e key_timers_def [of k "fold _ _ _"] assms(1))
  show "next_timer (elapse d s) = next_timer s"
    by (simp add: e)
  show "set (timers (elapse d s)) \<subseteq> set (timers s)"
    by (auto simp: e)
  show "now (elapse d s) = now s + d"
    by (simp add: e)
  show "infoHash (heap (elapse d s) v) = infoHash (heap s v)"
    by (simp add: e)
qed

lemma elapse_after_deadline:
  assumes "tm \<in> set (timers s)" and "deadline tm \<le> now s + d"
  shows "activeTorrents (elapse d s) (infoHash (heap s (target tm))) = None"
    and "destroyed (heap (elapse d s) (target tm))"
proof -
  let ?due = "filter (\<lambda>x. deadline x \<le> now s + d) (timers s)"
  let ?s0 = "s\<lparr>now := now s + d, timers := filter (\<lambda>x. \<not> deadline x \<le> now s + d) (timers s)\<rparr>"
  have e: "elapse d s = fold (\<lambda>x. on_timeout (target x)) ?due ?s0"
    by (simp add: elapse_def Let_def)
  have "tm \<in> set ?due" using assms by simp
  from timeouts_gone [OF this, of ?s0]
  show "activeTorrents (elapse d s) (infoHash (heap s (target tm))) = None"
    and "destroyed (heap (elapse d s) (target tm))"
    by (simp_all add: e)
qed

lemma sliding_ttl:
  assumes "no_stale k s" and "infoHash (heap s t) = k" and "\<not> destroyed (heap s t)"
    and "delta < TORRENT_TTL"
  defines "s2 \<equiv> keepTorrentAlive t (elapse delta (keepTorrentAlive t s))"
  shows "d < TORRENT_TTL \<Longrightarrow>
           activeTorrents (elapse d s2) k = Some \<lparr>torrent = t, timeout = Suc (next_timer s)\<rparr>
           \<and> \<not> destroyed (heap (elapse d s2) t)"
    and "TORRENT_TTL \<le> d \<Longrightarrow>
           activeTorrents (elapse d s2) k = None \<and> destroyed (heap (elapse d s2) t)"
    and "key_timers k s2
           = [\<lparr>timer_id = Suc (next_timer s), deadline = now s + delta + TORRENT_TTL, target = t\<rparr>]"
proof -
  let ?s1 = "keepTorrentAlive t s"
  let ?tm1 = "\<lparr>timer_id = next_timer s, deadline = now s + TORRENT_TTL, target = t\<rparr>"
  note k1 = keepTorrentAlive_single_timer [OF assms(1,2)]
  have h1: "infoHash (heap ?s1 t) = k" using assms(2) by simp
  have b1: "now ?s1 + delta < deadline ?tm1" using assms(4) by simp
  note e1 = elapse_before_deadline [OF k1(1) b1 h1]
  let ?sE = "elapse delta ?s1"
  have nsE: "no_stale k ?sE"
    unfolding no_stale_def
    using k1(2) e1(1,3,4,5) k1(3) by (auto simp: no_stale_def k1(1))
  have hE: "infoHash (heap ?sE t) = k" using e1(7) h1 by simp
  note k2 = keepTorrentAlive_single_timer [OF nsE hE]
  have nt: "next_timer ?sE = Suc (next_timer s)"
    using e1(4) by (simp add: keepTorrentAlive_def Let_def)
  have nw: "now ?sE = now s + delta"
    using e1(6) by simp
  let ?tm2 = "\<lparr>timer_id = Suc (next_timer s), deadline = now s + delta + TORRENT_TTL, target = t\<rparr>"
  have kt2: "key_timers k s2 = [?tm2]"
    using k2(1) by (simp add: s2_def nt nw)
  show "key_timers k s2 = [?tm2]" by (rule kt2)
  have h2: "infoHash (heap s2 t) = k" using hE by (simp add: s2_def)
  have now2: "now s2 = now s + delta" by (simp add: s2_def nw)
  have nd: "\<not> destroyed (heap s2 t)"
    using e1(2) assms(3) by (simp add: s2_def)
  have en: "activeTorrents s2 k = Some \<lparr>torrent = t, timeout = Suc (next_timer s)\<rparr>"
    using k2(3) by (simp add: s2_def nt)
  show "activeTorrents (elapse d s2) k = Some \<lparr>torrent = t, timeout = Suc (next_timer s)\<rparr>
           \<and> \<not> destroyed (heap (elapse d s2) t)" if "d < TORRENT_TTL"
  proof -
    have "now s2 + d < deadline ?tm2" using that by (simp add: now2)
    from elapse_before_deadline(1,2) [OF kt2 this h2] en nd
    show ?thesis by simp
  qed
  show "activeTorrents (elapse d s2) k = None \<and> destroyed (heap (elapse d s2) t)"
    if "TORRENT_TTL \<le> d"
  proof -
    have "?tm2 \<in> set (key_timers k s2)" by (simp add: kt2)
    then have m: "?tm2 \<in> set (timers s2)" by (simp add: key_timers_def)
    have "deadline ?tm2 \<le> now s2 + d" using that by (simp add: now2)
    from elapse_after_deadline [OF m this] h2
    show ?thesis by simp
  qed
qed

subsection \<open>Only the error listener leaves a stale timer\<close>

text \<open>
  Requests, ready events, closed responses, stream errors and the passing of time keep
  the timers well formed. So in a run in which no torrent emits \<open>error\<close>, no key has a
  stale timer, and the time to live slides as C2 says.
\<close>

lemma timers_wf_no_stale: "timers_wf s \<Longrightarrow> no_stale k s"
  by (auto simp: timers_wf_def no_stale_def key_timers_def)

lemma timers_wf_cong:
  assumes "timers_wf s" and "timers s' = timers s" and "next_timer s' = next_timer s"
    and "next_tid s' = next_tid s" and "activeTorrents s' = activeTorrents s"
    and "\<And>u. infoHash (heap s' u) = infoHash (heap s u)"
    and "\<forall>st \<in> ran (streams s'). source st < next_tid s"
  shows "timers_wf s'"
  using assms unfolding timers_wf_def by simp

lemma timers_wf_frame:
  assumes "timers_wf s" and "timers s' = timers s" and "next_timer s' = next_timer s"
    and "next_tid s' = next_tid s" and "activeTorrents s' = activeTorrents s"
    and "\<And>u. infoHash (heap s' u) = infoHash (heap s u)"
    and "streams s' = streams s"
  shows "timers_wf s'"
  using assms unfolding timers_wf_def by simp

lemma distinct_map_partition:
  assumes "distinct (map f xs)"
  shows "distinct (map f (filter P xs @ filter (\<lambda>x. \<not> P x) xs))"
proof -
  have "distinct xs" "inj_on f (set xs)"
    using assms by (simp_all add: distinct_map)
  then show ?thesis
    by (auto simp: distinct_map inj_on_def)
qed

lemma timers_wf_keep:
  assumes "timers_wf s" and "t < next_tid s"
  shows "timers_wf (keepTorrentAlive t s)"
proof -
  let ?k = "infoHash (heap s t)"
  let ?ts = "case activeTorrents s ?k of
               Some existing \<Rightarrow> clearTimeout (timeout existing) (timers s)
             | None \<Rightarrow> timers s"
  let ?new = "\<lparr>timer_id = next_timer s, deadline = now s + TORRENT_TTL, target = t\<rparr>"
  let ?s' = "keepTorrentAlive t s"
  have t: "timers ?s' = ?ts @ [?new]" "next_timer ?s' = Suc (next_timer s)"
    "activeTorrents ?s' = (activeTorrents s)(?k \<mapsto> \<lparr>torrent = t, timeout = next_timer s\<rparr>)"
    by (simp_all add: keepTorrentAlive_def Let_def)
  have sub: "set ?ts \<subseteq> set (timers s)"
    by (auto simp: clearTimeout_def split: option.split)
  have dist: "distinct (map timer_id ?ts)"
    using assms(1) by (auto simp: timers_wf_def clearTimeout_def distinct_map_filter split: option.split)
  have old: "\<forall>tm \<in> set ?ts. infoHash (heap s (target tm)) \<noteq> ?k"
    using assms(1) by (auto simp: timers_wf_def clearTimeout_def split: option.split)
  have ids: "\<forall>tm \<in> set ?ts. timer_id tm < next_timer s"
    using assms(1) sub by (auto simp: timers_wf_def)
  have 1: "distinct (map timer_id (timers ?s'))"
    using dist ids by (auto simp: t)
  have 2: "\<forall>tm \<in> set (timers ?s').
            timer_id tm < next_timer ?s' \<and> target tm < next_tid ?s'
            \<and> (\<exists>e. activeTorrents ?s' (infoHash (heap ?s' (target tm))) = Some e
                     \<and> timeout e = timer_id tm)"
  proof
    fix tm assume "tm \<in> set (timers ?s')"
    then consider "tm \<in> set ?ts" | "tm = ?new" by (auto simp: t)
    then show "timer_id tm < next_timer ?s' \<and> target tm < next_tid ?s'
            \<and> (\<exists>e. activeTorrents ?s' (infoHash (heap ?s' (target tm))) = Some e
                     \<and> timeout e = timer_id tm)"
    proof cases
      case 1
      then have "tm \<in> set (timers s)" using sub by auto
      then show ?thesis
        using assms(1) old 1 by (auto simp: timers_wf_def t less_Suc_eq)
    next
      case 2
      then show ?thesis using assms(2) by (simp add: t)
    qed
  qed
  have 3: "\<forall>st \<in> ran (streams ?s'). source st < next_tid ?s'"
    using assms(1) by (simp add: timers_wf_def)
  show ?thesis unfolding timers_wf_def using 1 2 3 by blast
qed

lemma ran_upd_subset: "ran (m(k \<mapsto> v)) \<subseteq> insert v (ran m)"
  by (auto simp: ran_def)

lemma timers_wf_serve:
  assumes "timers_wf s" and "t < next_tid s"
  shows "timers_wf (serve r t rng s)"
proof -
  let ?s1 = "keepTorrentAlive t s"
  have w: "timers_wf ?s1" using assms by (rule timers_wf_keep)
  show ?thesis
  proof (cases "find_playable (files (heap ?s1 t))")
    case None
    have "timers_wf (?s1\<lparr>responses := (responses ?s1)(r \<mapsto> json_error 404 ''No video file found in torrent.'')\<rparr>)"
      using w by (rule timers_wf_frame) simp_all
    then show ?thesis using None by (simp add: serve_def Let_def)
  next
    case (Some f)
    let ?s2 = "?s1\<lparr>responses := (responses ?s1)(r \<mapsto> stream_response f rng),
                streams := (streams ?s1)(r \<mapsto> \<lparr>source = t, stream_destroyed = False\<rparr>),
                heap := (heap ?s1)(t := (heap ?s1 t)\<lparr>error_listeners :=
                                                    error_listeners (heap ?s1 t) + 1\<rparr>)\<rparr>"
    have r: "\<forall>st \<in> ran (streams ?s2). source st < next_tid ?s2"
      using w assms(2) ran_upd_subset [of "streams ?s1" r "\<lparr>source = t, stream_destroyed = False\<rparr>"]
      by (auto simp: timers_wf_def)
    have "timers_wf ?s2"
      using w by (rule timers_wf_cong) (use r in simp_all)
    then show ?thesis using Some by (simp add: serve_def Let_def)
  qed
qed

lemma timers_wf_resume:
  "timers_wf s \<Longrightarrow> t < next_tid s \<Longrightarrow>
     timers_wf (fold (\<lambda>p. serve (p_rid p) t (p_range p)) ps s)"
  by (induction ps arbitrary: s) (simp_all add: timers_wf_serve)

lemma timers_wf_add:
  assumes "timers_wf s"
  shows "timers_wf (snd (client_add ih m s))"
proof -
  have "\<forall>tm \<in> set (timers s). target tm \<noteq> next_tid s"
    using assms by (auto simp: timers_wf_def)
  then show ?thesis
    using assms by (auto simp: timers_wf_def client_add_def Let_def less_Suc_eq)
qed

lemma timers_wf_request:
  assumes "timers_wf s" and "client_ok s"
  shows "timers_wf (request ih mg rng s)"
proof -
  let ?s = "s\<lparr>next_rid := next_rid s + 1\<rparr>"
  have w: "timers_wf ?s" using assms(1) by (rule timers_wf_frame) simp_all
  have resp: "timers_wf (x\<lparr>responses := f\<rparr>)" if "timers_wf x" for x f
    using that by (rule timers_wf_frame) simp_all
  have susp: "timers_wf (suspend r t a rng x)" if "timers_wf x" for x r t a
    using that unfolding suspend_def by (rule timers_wf_frame) simp_all
  have add: "timers_wf (suspend r v a rng x)" if "client_add ih m ?s = (v, x)" for m v x r a
    using timers_wf_add [OF w, of ih m] that by (simp add: susp)
  have srv: "timers_wf (serve r t rng ?s)" if "client_get ih m ?s = Some t" for m t r
  proof -
    have "t \<in> set (client_torrents s)"
      using that by (auto simp: client_get_def find_Some_iff)
    then have "t < next_tid ?s"
      using assms(2) by (auto simp: client_ok_def list_all_iff)
    then show ?thesis using w by (intro timers_wf_serve)
  qed
  show ?thesis
    using resp [OF w] susp [OF w] add srv
    by (auto simp: request_def Let_def split: option.split prod.split)
qed

lemma on_timeout_unfold:
  "on_timeout u s = (if destroyed (heap s u) then s else torrent_destroy u s)
      \<lparr>activeTorrents := (activeTorrents s)(infoHash (heap s u) := None)\<rparr>"
  by (simp add: on_timeout_def torrent_destroy_def Let_def)

text \<open>
  The timers \<open>tms\<close> have left the pending list and their callbacks are about to run.
\<close>

lemma timers_wf_timeouts:
  assumes "distinct (map timer_id (tms @ timers s))"
    and "\<forall>tm \<in> set (tms @ timers s).
            timer_id tm < next_timer s \<and> target tm < next_tid s
            \<and> (\<exists>e. activeTorrents s (infoHash (heap s (target tm))) = Some e
                     \<and> timeout e = timer_id tm)"
    and "\<forall>st \<in> ran (streams s). source st < next_tid s"
  shows "timers_wf (fold (\<lambda>tm. on_timeout (target tm)) tms s)"
  using assms
proof (induction tms arbitrary: s)
  case Nil
  then show ?case by (simp add: timers_wf_def)
next
  case (Cons x tms)
  let ?s1 = "on_timeout (target x) s"
  let ?k = "infoHash (heap s (target x))"
  have fr: "timers ?s1 = timers s" "next_timer ?s1 = next_timer s" "next_tid ?s1 = next_tid s"
    "streams ?s1 = streams s" "\<And>u. infoHash (heap ?s1 u) = infoHash (heap s u)"
    "activeTorrents ?s1 = (activeTorrents s)(?k := None)"
    by (simp_all add: on_timeout_unfold torrent_destroy_def)
  obtain e where e: "activeTorrents s ?k = Some e" "timeout e = timer_id x"
    using Cons.prems(2) by auto
  have other: "infoHash (heap s (target tm)) \<noteq> ?k" if "tm \<in> set (tms @ timers s)" for tm
  proof
    assume k: "infoHash (heap s (target tm)) = ?k"
    have "tm \<in> set ((x # tms) @ timers s)"
      using that by simp
    from Cons.prems(2) [rule_format, OF this]
    obtain e' where "activeTorrents s (infoHash (heap s (target tm))) = Some e'"
        "timeout e' = timer_id tm"
      by blast
    then have "timer_id tm = timer_id x"
      using e k by simp
    moreover have "timer_id x \<notin> timer_id ` set (tms @ timers s)"
      using Cons.prems(1) by auto
    ultimately show False using that by (metis imageI)
  qed
  have 1: "distinct (map timer_id (tms @ timers ?s1))"
    using Cons.prems(1) by (simp add: fr)
  have 2: "\<forall>tm \<in> set (tms @ timers ?s1).
            timer_id tm < next_timer ?s1 \<and> target tm < next_tid ?s1
            \<and> (\<exists>e. activeTorrents ?s1 (infoHash (heap ?s1 (target tm))) = Some e
                     \<and> timeout e = timer_id tm)"
    using Cons.prems(2) other by (auto simp: fr)
  have 3: "\<forall>st \<in> ran (streams ?s1). source st < next_tid ?s1"
    using Cons.prems(3) by (simp add: fr)
  show ?case using Cons.IH [OF 1 2 3] by simp
qed

lemma timers_wf_elapse:
  assumes "timers_wf s"
  shows "timers_wf (elapse d s)"
proof -
  let ?due = "filter (\<lambda>x. deadline x \<le> now s + d) (timers s)"
  let ?rest = "filter (\<lambda>x. \<not> deadline x \<le> now s + d) (timers s)"
  let ?s0 = "s\<lparr>now := now s + d, timers := ?rest\<rparr>"
  have e: "elapse d s = fold (\<lambda>x. on_timeout (target x)) ?due ?s0"
    by (simp add: elapse_def Let_def)
  have "distinct (map timer_id (timers s))"
    using assms by (simp add: timers_wf_def)
  then have 1: "distinct (map timer_id (?due @ timers ?s0))"
    using distinct_map_partition [of timer_id "timers s" "\<lambda>x. deadline x \<le> now s + d"]
    by simp
  have 2: "\<forall>tm \<in> set (?due @ timers ?s0).
            timer_id tm < next_timer ?s0 \<and> target tm < next_tid ?s0
            \<and> (\<exists>e. activeTorrents ?s0 (infoHash (heap ?s0 (target tm))) = Some e
                     \<and> timeout e = timer_id tm)"
    using assms by (auto simp: timers_wf_def)
  have 3: "\<forall>st \<in> ran (streams ?s0). source st < next_tid ?s0"
    using assms by (simp add: timers_wf_def)
  show ?thesis unfolding e using 1 2 3 by (rule timers_wf_timeouts)
qed

lemma timers_wf_step:
  assumes "timers_wf s" and "client_ok s" and "\<not> is_error e"
  shows "timers_wf (step ih e s)"
proof (cases e)
  case (Request mg rng)
  then show ?thesis using assms(1,2) by (simp add: timers_wf_request)
next
  case (Ready u fs)
  show ?thesis
  proof (cases "destroyed (heap s u) \<or> ready (heap s u) \<or> u \<notin> set (client_torrents s)")
    case True
    then show ?thesis using assms(1) Ready by (simp add: torrent_ready_def)
  next
    case False
    let ?base = "s\<lparr>heap := (heap s)(u := (heap s u)\<lparr>ready := True, files := fs\<rparr>),
             waiting := filter (\<lambda>p. p_torrent p \<noteq> u) (waiting s)\<rparr>"
    have "timers_wf ?base"
      using assms(1) by (rule timers_wf_frame) simp_all
    moreover have "u < next_tid ?base"
      using False assms(2) by (auto simp: client_ok_def list_all_iff)
    ultimately have "timers_wf (fold (\<lambda>p. serve (p_rid p) u (p_range p))
        (filter (\<lambda>p. p_torrent p = u) (waiting s)) ?base)"
      by (rule timers_wf_resume)
    then show ?thesis using False Ready by (simp add: torrent_ready_def)
  qed
next
  case (TorrentError u)
  then show ?thesis using assms(3) by (simp add: is_error_def)
next
  case (Close r)
  show ?thesis
  proof (cases "streams s r")
    case None
    then show ?thesis using assms(1) Close by (simp add: on_close_def)
  next
    case (Some st)
    let ?s0 = "s\<lparr>streams := (streams s)(r \<mapsto> st\<lparr>stream_destroyed := True\<rparr>)\<rparr>"
    have src: "source st < next_tid s"
      using assms(1) Some by (auto simp: timers_wf_def ran_def)
    have "\<forall>x \<in> ran (streams ?s0). source x < next_tid ?s0"
      using assms(1) src ran_upd_subset [of "streams s" r "st\<lparr>stream_destroyed := True\<rparr>"]
      by (auto simp: timers_wf_def)
    then have "timers_wf ?s0"
      using assms(1) unfolding timers_wf_def by simp
    then have "timers_wf (keepTorrentAlive (source st) ?s0)"
      using src by (intro timers_wf_keep) simp_all
    then show ?thesis using Some Close by (simp add: on_close_def)
  qed
next
  case (StreamError r)
  show ?thesis
  proof (cases "streams s r")
    case None
    then show ?thesis using assms(1) StreamError by (simp add: on_stream_error_def)
  next
    case (Some st)
    have "source st < next_tid s"
      using assms(1) Some by (auto simp: timers_wf_def ran_def)
    then have "timers_wf (keepTorrentAlive (source st) s)"
      using assms(1) by (intro timers_wf_keep)
    then show ?thesis using Some StreamError by (simp add: on_stream_error_def)
  qed
next
  case (Elapse d)
  then show ?thesis using assms(1) by (simp add: timers_wf_elapse)
qed

lemma timers_wf_run:
  assumes "timers_wf s" and "client_ok s" and "\<forall>e \<in> set evs. \<not> is_error e"
  shows "timers_wf (run ih evs s)"
  using assms unfolding run_def
proof (induction evs arbitrary: s)
  case Nil
  then show ?case by simp
next
  case (Cons e evs)
  have "timers_wf (step ih e s)" "client_ok (step ih e s)"
    using Cons.prems by (simp_all add: timers_wf_step client_ok_step)
  then show ?case using Cons.IH Cons.prems(3) by simp
qed

lemma no_stale_without_error:
  assumes "\<forall>e \<in> set evs. \<not> is_error e"
  shows "no_stale k (run ih evs init)"
proof -
  have "timers_wf init"
    by (simp add: timers_wf_def init_def)
  then have "timers_wf (run ih evs init)"
    using client_ok_init assms by (rule timers_wf_run)
  then show ?thesis by (rule timers_wf_no_stale)
qed

lemma sliding_ttl_without_error:
  assumes "\<forall>e \<in> set evs. \<not> is_error e" and "\<not> destroyed (heap (run ih evs init) t)"
    and "delta < TORRENT_TTL"
  defines "s \<equiv> run ih evs init"
  defines "s2 \<equiv> keepTorrentAlive t (elapse delta (keepTorrentAlive t s))"
  shows "d < TORRENT_TTL \<Longrightarrow>
           activeTorrents (elapse d s2) (infoHash (heap s t)) \<noteq> None
           \<and> \<not> destroyed (heap (elapse d s2) t)"
    and "TORRENT_TTL \<le> d \<Longrightarrow>
           activeTorrents (elapse d s2) (infoHash (heap s t)) = None
           \<and> destroyed (heap (elapse d s2) t)"
proof -
  have n: "no_stale (infoHash (heap s t)) s"
    unfolding s_def using assms(1) by (rule no_stale_without_error)
  have nd: "\<not> destroyed (heap s t)"
    using assms(2) by (simp add: s_def)
  note st = sliding_ttl [OF n refl nd assms(3)]
  show "activeTorrents (elapse d s2) (infoHash (heap s t)) \<noteq> None
           \<and> \<not> destroyed (heap (elapse d s2) t)" if "d < TORRENT_TTL"
    using st(1) [OF that] by (simp add: s2_def)
  show "activeTorrents (elapse d s2) (infoHash (heap s t)) = None
           \<and> destroyed (heap (elapse d s2) t)" if "TORRENT_TTL \<le> d"
    using st(2) [OF that] by (simp add: s2_def)
qed

section \<open>Failure to create a session\<close>

text \<open>
  C5 says that when the engine fails to create a session, no entry is inserted, no timer
  is armed and the client receives a 5xx response. The response does not hold of the
  code. The handler waits at line 71 for a promise that only the
  callback of \<open>client.add\<close> resolves; \<open>reject\<close> is never called and nothing catches a
  failure. In the run below the engine gives up on torrent 0, on which no listener is
  registered yet, and twenty minutes pass: the request has no response and its handler
  is still suspended. The table and the timers are untouched, as the claim says.
\<close>

theorem creation_failure_no_response:
  "responses
     (run (\<lambda>m. m) [Request (Some sample_magnet) None, TorrentError 0, Elapse 600000, Elapse 600000]
        init) 0 = None
   \<and> waiting
       (run (\<lambda>m. m) [Request (Some sample_magnet) None, TorrentError 0, Elapse 600000, Elapse 600000]
          init)
       = [\<lparr>p_rid = 0, p_torrent = 0, p_await = OnTorrent, p_range = None\<rparr>]
   \<and> activeTorrents
       (run (\<lambda>m. m) [Request (Some sample_magnet) None, TorrentError 0, Elapse 600000, Elapse 600000]
          init) = Map.empty
   \<and> timers
       (run (\<lambda>m. m) [Request (Some sample_magnet) None, TorrentError 0, Elapse 600000, Elapse 600000]
          init) = []"
  by (simp add: handler_defs)

subsection \<open>No response without the ready event\<close>

lemma unanswered_keep: "unanswered r t s \<Longrightarrow> unanswered r t (keepTorrentAlive u s)"
  by (simp add: unanswered_def)

lemma unanswered_serve:
  "unanswered r t s \<Longrightarrow> q \<noteq> r \<Longrightarrow> unanswered r t (serve q u rng s)"
  by (simp add: unanswered_def serve_responses)

lemma unanswered_resume:
  "unanswered r t s \<Longrightarrow> r \<notin> p_rid ` set ps \<Longrightarrow>
     unanswered r t (fold (\<lambda>p. serve (p_rid p) u (p_range p)) ps s)"
  by (induction ps arbitrary: s) (auto simp: unanswered_serve)

lemma on_error_frame2 [simp]:
  "responses (on_error u s) = responses s"
  "next_rid (on_error u s) = next_rid s"
  "waiting (on_error u s) = waiting s"
  by (simp_all add: on_error_def torrent_destroy_def Let_def)

lemma unanswered_on_error: "unanswered r t s \<Longrightarrow> unanswered r t (on_error u s)"
  by (simp add: unanswered_def)

lemma unanswered_errors: "unanswered r t s \<Longrightarrow> unanswered r t ((on_error u ^^ n) s)"
  by (induction n) (simp_all add: unanswered_on_error)

lemma unanswered_timeouts:
  "unanswered r t s \<Longrightarrow> unanswered r t (fold (\<lambda>tm. on_timeout (target tm)) tms s)"
  by (induction tms arbitrary: s) (simp_all add: unanswered_on_error on_timeout_eq)

lemma unanswered_request: "unanswered r t s \<Longrightarrow> unanswered r t (request ih mg rng s)"
proof -
  assume u: "unanswered r t s"
  let ?s = "s\<lparr>next_rid := next_rid s + 1\<rparr>"
  have u': "unanswered r t ?s" using u by (simp add: unanswered_def)
  have ne: "next_rid s \<noteq> r" using u by (simp add: unanswered_def)
  have resp: "unanswered r t (?s\<lparr>responses := (responses ?s)(next_rid s \<mapsto> x)\<rparr>)" for x
    using u ne by (simp add: unanswered_def)
  have susp: "unanswered r t (suspend (next_rid s) v a rng x)" if "unanswered r t x" for x v a
    using that ne by (auto simp: unanswered_def suspend_def)
  have add: "unanswered r t (suspend (next_rid s) v a rng x)"
    if "client_add ih m ?s = (v, x)" for m v x a
  proof -
    have "unanswered r t x"
      using u' that by (auto simp: unanswered_def client_add_def Let_def)
    then show ?thesis by (rule susp)
  qed
  show ?thesis
    using resp susp [OF u'] add unanswered_serve [OF u' ne]
    by (auto simp: request_def Let_def split: option.split prod.split)
qed

lemma unanswered_step:
  assumes "unanswered r t s" and "\<forall>fs. e \<noteq> Ready t fs"
  shows "unanswered r t (step ih e s)"
proof (cases e)
  case (Request mg rng)
  then show ?thesis using assms(1) by (simp add: unanswered_request)
next
  case (Ready u fs)
  then have ut: "u \<noteq> t" using assms(2) by auto
  let ?base = "s\<lparr>heap := (heap s)(u := (heap s u)\<lparr>ready := True, files := fs\<rparr>),
             waiting := filter (\<lambda>p. p_torrent p \<noteq> u) (waiting s)\<rparr>"
  have b: "unanswered r t ?base"
    using assms(1) by (simp add: unanswered_def)
  have "r \<notin> p_rid ` set (filter (\<lambda>p. p_torrent p = u) (waiting s))"
    using assms(1) ut by (auto simp: unanswered_def)
  then have "unanswered r t (fold (\<lambda>p. serve (p_rid p) u (p_range p))
      (filter (\<lambda>p. p_torrent p = u) (waiting s)) ?base)"
    using b by (rule unanswered_resume [rotated])
  then show ?thesis
    using assms(1) Ready by (simp add: torrent_ready_def)
next
  case (TorrentError u)
  then show ?thesis using assms(1) by (simp add: torrent_error_def unanswered_errors)
next
  case (Close q)
  have "unanswered r t (s\<lparr>streams := f\<rparr>)" for f
    using assms(1) by (simp add: unanswered_def)
  then show ?thesis
    using assms(1) Close by (simp add: on_close_def unanswered_keep split: option.split)
next
  case (StreamError q)
  then show ?thesis
    using assms(1) by (simp add: on_stream_error_def unanswered_keep split: option.split)
next
  case (Elapse d)
  have "unanswered r t (s\<lparr>now := now s + d,
      timers := filter (\<lambda>tm. \<not> deadline tm \<le> now s + d) (timers s)\<rparr>)"
    using assms(1) by (simp add: unanswered_def)
  then show ?thesis
    using Elapse by (simp add: elapse_def Let_def unanswered_timeouts)
qed

lemma unanswered_run:
  assumes "unanswered r t s" and "\<forall>fs. Ready t fs \<notin> set evs"
  shows "unanswered r t (run ih evs s)"
  using assms unfolding run_def
proof (induction evs arbitrary: s)
  case Nil
  then show ?case by simp
next
  case (Cons e evs)
  have "unanswered r t (step ih e s)"
    using Cons.prems by (intro unanswered_step) auto
  then show ?case using Cons.IH Cons.prems(2) by simp
qed

lemma no_response_without_ready:
  assumes "m \<noteq> []" and "client_get ih m s = None" and "responses s (next_rid s) = None"
    and "\<forall>p \<in> set (waiting s). p_rid p < next_rid s"
    and "\<forall>fs. Ready (next_tid s) fs \<notin> set evs"
  shows "responses (run ih evs (request ih (Some m) rng s)) (next_rid s) = None"
proof -
  have "unanswered (next_rid s) (next_tid s) (request ih (Some m) rng s)"
    using assms(3,4) by (auto simp: request_adds [OF assms(1,2)] unanswered_def)
  then have "unanswered (next_rid s) (next_tid s) (run ih evs (request ih (Some m) rng s))"
    using assms(5) by (rule unanswered_run)
  then show ?thesis by (simp add: unanswered_def)
qed

section \<open>A disconnect keeps the session\<close>

lemma keepTorrentAlive_entry:
  "activeTorrents (keepTorrentAlive t s) (infoHash (heap s t))
     = Some \<lparr>torrent = t, timeout = next_timer s\<rparr>"
  "\<lparr>timer_id = next_timer s, deadline = now s + TORRENT_TTL, target = t\<rparr>
     \<in> set (timers (keepTorrentAlive t s))"
  by (simp_all add: keepTorrentAlive_def Let_def)

text \<open>
  A request \<open>r\<close> is streaming from the session of the magnet \<open>m\<close>, which the client
  holds and which is ready. When the response of \<open>r\<close> closes, only the stream of \<open>r\<close> is
  destroyed; no torrent changes and the client's list is as it was; the cache table holds
  the session under its info hash, with a timer newly armed for \<open>now + TTL\<close>; and a
  request for \<open>m\<close> that follows at once gets the same session from the client, without a
  call of \<open>client.add\<close>, and streams from it.
\<close>

lemma close_listener_refreshes:
  assumes "streams s r = Some st" and "m \<noteq> []" and "client_get ih m s = Some (source st)"
    and "ready (heap s (source st))"
  shows "streams (on_close r s) = (streams s)(r \<mapsto> st\<lparr>stream_destroyed := True\<rparr>)
     \<and> heap (on_close r s) = heap s
     \<and> client_torrents (on_close r s) = client_torrents s
     \<and> activeTorrents (on_close r s) (ih m)
         = Some \<lparr>torrent = source st, timeout = next_timer s\<rparr>
     \<and> \<lparr>timer_id = next_timer s, deadline = now s + TORRENT_TTL, target = source st\<rparr>
         \<in> set (timers (on_close r s))
     \<and> client_get ih m (on_close r s) = Some (source st)
     \<and> add_calls (request ih (Some m) rng (on_close r s)) = add_calls s
     \<and> (find_playable (files (heap s (source st))) \<noteq> None \<longrightarrow>
          streams (request ih (Some m) rng (on_close r s)) (next_rid s)
            = Some \<lparr>source = source st, stream_destroyed = False\<rparr>)"
proof -
  let ?t = "source st"
  let ?s0 = "s\<lparr>streams := (streams s)(r \<mapsto> st\<lparr>stream_destroyed := True\<rparr>)\<rparr>"
  let ?s' = "on_close r s"
  have s': "?s' = keepTorrentAlive ?t ?s0"
    using assms(1) by (simp add: on_close_def)
  have hash: "infoHash (heap s ?t) = ih m"
    using assms(3) by (rule client_get_hash)
  have a: "streams ?s' = (streams s)(r \<mapsto> st\<lparr>stream_destroyed := True\<rparr>)"
    by (simp add: s')
  have b: "heap ?s' = heap s" "client_torrents ?s' = client_torrents s"
    by (simp_all add: s')
  have c: "activeTorrents ?s' (ih m) = Some \<lparr>torrent = ?t, timeout = next_timer s\<rparr>"
    using keepTorrentAlive_entry(1) [of ?t ?s0] by (simp add: s' hash)
  have d: "\<lparr>timer_id = next_timer s, deadline = now s + TORRENT_TTL, target = ?t\<rparr>
         \<in> set (timers ?s')"
    using keepTorrentAlive_entry(2) [of ?s0 ?t] by (simp add: s')
  have e: "client_get ih m ?s' = Some ?t"
    using assms(3) by (simp add: client_get_def b)
  let ?s1 = "?s'\<lparr>next_rid := next_rid ?s' + 1\<rparr>"
  have req: "request ih (Some m) rng ?s' = serve (next_rid ?s') ?t rng ?s1"
  proof -
    have "client_get ih m ?s1 = Some ?t"
      using e by (simp add: client_get_def)
    moreover have "ready (heap ?s1 ?t)"
      using assms(4) by (simp add: b)
    ultimately show ?thesis
      using assms(2) by (simp add: request_def Let_def)
  qed
  have f: "add_calls (request ih (Some m) rng ?s') = add_calls s"
    by (simp add: req) (simp add: s')
  have g: "find_playable (files (heap s ?t)) \<noteq> None \<longrightarrow>
          streams (request ih (Some m) rng ?s') (next_rid s)
            = Some \<lparr>source = ?t, stream_destroyed = False\<rparr>"
  proof
    assume "find_playable (files (heap s ?t)) \<noteq> None"
    then have "find_playable (files (heap ?s1 ?t)) \<noteq> None"
      by (simp add: b)
    moreover have "next_rid ?s' = next_rid s"
      by (simp add: s')
    ultimately show "streams (request ih (Some m) rng ?s') (next_rid s)
            = Some \<lparr>source = ?t, stream_destroyed = False\<rparr>"
      by (simp add: req serve_streams)
  qed
  show ?thesis using a b c d e f g by blast
qed

lemma close_listener_refreshes_sample:
  "streams sample_state 0 = Some \<lparr>source = 0, stream_destroyed = False\<rparr>
   \<and> sample_magnet \<noteq> []
   \<and> client_get (\<lambda>m. m) sample_magnet sample_state = Some 0
   \<and> ready (heap sample_state 0)
   \<and> streams (on_close 0 sample_state) 0 = Some \<lparr>source = 0, stream_destroyed = True\<rparr>
   \<and> heap (on_close 0 sample_state) = heap sample_state
   \<and> activeTorrents (on_close 0 sample_state) sample_magnet = Some \<lparr>torrent = 0, timeout = 1\<rparr>
   \<and> client_get (\<lambda>m. m) sample_magnet (on_close 0 sample_state) = Some 0
   \<and> add_calls (request (\<lambda>m. m) (Some sample_magnet) None (on_close 0 sample_state)) = 1
   \<and> streams (request (\<lambda>m. m) (Some sample_magnet) None (on_close 0 sample_state)) 1
       = Some \<lparr>source = 0, stream_destroyed = False\<rparr>"
proof -
  have h2: "sample_magnet \<noteq> []"
    by (simp add: sample_magnet_def)
  have g: "client_get (\<lambda>m. m) sample_magnet sample_state
      = Some (source \<lparr>source = 0, stream_destroyed = False\<rparr>)"
    by (simp add: sample_state_facts)
  have r: "ready (heap sample_state (source \<lparr>source = 0, stream_destroyed = False\<rparr>))"
    by (simp add: sample_state_facts)
  have f: "find_playable (files (heap sample_state 0)) \<noteq> None"
    by (simp add: sample_state_files sample_find)
  show ?thesis
    using close_listener_refreshes [OF sample_state_facts(9) h2 g r, of None] h2 f
    by (simp add: sample_state_facts)
qed

subsection \<open>A session outlives its disconnects when it has no stale timer\<close>

text \<open>
  When the timers of the key are not stale, the close listener leaves exactly one timer
  for the session, due at \<open>now + TTL\<close>. Whatever happens then, short of an error of the
  session, the session is alive as long as less than the time to live has passed, and a
  request for its content is given it without a call of \<open>client.add\<close>.
\<close>

lemma kept_alive_frame:
  assumes "kept_alive k T0 t s" and "next_tid s \<le> next_tid s'"
    and "t \<in> set (client_torrents s) \<Longrightarrow> t \<in> set (client_torrents s')"
    and "destroyed (heap s' t) = destroyed (heap s t)"
    and "infoHash (heap s' t) = infoHash (heap s t)"
    and "now s \<le> now s'"
    and "\<forall>tm \<in> set (timers s'). tm \<in> set (timers s)
           \<or> (now s + TORRENT_TTL \<le> deadline tm) \<or> target tm \<noteq> t"
  shows "kept_alive k T0 t s'"
  using assms unfolding kept_alive_def by fastforce

lemma keepTorrentAlive_timers:
  "\<forall>tm \<in> set (timers (keepTorrentAlive u s)).
      tm \<in> set (timers s) \<or> now s + TORRENT_TTL \<le> deadline tm \<or> target tm \<noteq> t"
  by (auto simp: keepTorrentAlive_def Let_def clearTimeout_def split: option.splits)

lemma kept_alive_keep: "kept_alive k T0 t s \<Longrightarrow> kept_alive k T0 t (keepTorrentAlive u s)"
  by (erule kept_alive_frame) (simp_all add: keepTorrentAlive_timers)

lemma serve_timers [simp]: "timers (serve r u rng s) = timers (keepTorrentAlive u s)"
  by (simp add: serve_def Let_def split: option.split)

lemma kept_alive_serve: "kept_alive k T0 t s \<Longrightarrow> kept_alive k T0 t (serve r u rng s)"
  by (erule kept_alive_frame) (simp_all add: keepTorrentAlive_timers)

lemma kept_alive_resume:
  "kept_alive k T0 t s \<Longrightarrow>
     kept_alive k T0 t (fold (\<lambda>p. serve (p_rid p) u (p_range p)) ps s)"
  by (induction ps arbitrary: s) (simp_all add: kept_alive_serve)

lemma kept_alive_request:
  assumes "kept_alive k T0 t s"
  shows "kept_alive k T0 t (request ih mg rng s)"
proof -
  let ?s = "s\<lparr>next_rid := next_rid s + 1\<rparr>"
  have a: "kept_alive k T0 t ?s"
    using assms by (simp add: kept_alive_def)
  have resp: "kept_alive k T0 t (x\<lparr>responses := f\<rparr>)" if "kept_alive k T0 t x" for x f
    using that by (simp add: kept_alive_def)
  have susp: "kept_alive k T0 t (suspend r u b rng x)" if "kept_alive k T0 t x" for x r u b
    using that by (simp add: kept_alive_def suspend_def)
  have add: "kept_alive k T0 t (suspend r v b rng x)"
    if "client_add ih m ?s = (v, x)" for m v x r b
  proof -
    have "kept_alive k T0 t x"
      using a that by (auto simp: kept_alive_def client_add_def Let_def)
    then show ?thesis by (rule susp)
  qed
  show ?thesis
    using resp [OF a] susp [OF a] add kept_alive_serve [OF a]
    by (auto simp: request_def Let_def split: option.split prod.split)
qed

lemma kept_alive_on_error:
  "kept_alive k T0 t s \<Longrightarrow> u \<noteq> t \<Longrightarrow> kept_alive k T0 t (on_error u s)"
  by (auto simp: kept_alive_def on_error_def torrent_destroy_def Let_def)

lemma kept_alive_errors:
  "kept_alive k T0 t s \<Longrightarrow> u \<noteq> t \<Longrightarrow> kept_alive k T0 t ((on_error u ^^ n) s)"
  by (induction n) (simp_all add: kept_alive_on_error)

lemma kept_alive_timeouts:
  "kept_alive k T0 t s \<Longrightarrow> \<forall>tm \<in> set tms. target tm \<noteq> t \<Longrightarrow>
     kept_alive k T0 t (fold (\<lambda>tm. on_timeout (target tm)) tms s)"
  by (induction tms arbitrary: s) (simp_all add: kept_alive_on_error on_timeout_eq)

lemma kept_alive_elapse:
  assumes "kept_alive k T0 t s" and "now s + d < T0 + TORRENT_TTL"
  shows "kept_alive k T0 t (elapse d s)"
proof -
  let ?due = "filter (\<lambda>x. deadline x \<le> now s + d) (timers s)"
  let ?s0 = "s\<lparr>now := now s + d, timers := filter (\<lambda>x. \<not> deadline x \<le> now s + d) (timers s)\<rparr>"
  have "kept_alive k T0 t ?s0"
    using assms(1) by (auto simp: kept_alive_def)
  moreover have "\<forall>tm \<in> set ?due. target tm \<noteq> t"
    using assms by (auto simp: kept_alive_def)
  ultimately show ?thesis
    by (simp add: elapse_def Let_def kept_alive_timeouts)
qed

lemma kept_alive_step:
  assumes "kept_alive k T0 t s" and "e \<noteq> TorrentError t"
    and "now s + elapsed_of e < T0 + TORRENT_TTL"
  shows "kept_alive k T0 t (step ih e s)"
proof (cases e)
  case (Request mg rng)
  then show ?thesis using assms(1) by (simp add: kept_alive_request)
next
  case (Ready u fs)
  let ?base = "s\<lparr>heap := (heap s)(u := (heap s u)\<lparr>ready := True, files := fs\<rparr>),
             waiting := filter (\<lambda>p. p_torrent p \<noteq> u) (waiting s)\<rparr>"
  have "kept_alive k T0 t ?base"
    using assms(1) by (auto simp: kept_alive_def)
  then have "kept_alive k T0 t (fold (\<lambda>p. serve (p_rid p) u (p_range p))
      (filter (\<lambda>p. p_torrent p = u) (waiting s)) ?base)"
    by (rule kept_alive_resume)
  then show ?thesis using assms(1) Ready by (simp add: torrent_ready_def)
next
  case (TorrentError u)
  then have "u \<noteq> t" using assms(2) by simp
  then show ?thesis
    using assms(1) TorrentError by (simp add: torrent_error_def kept_alive_errors)
next
  case (Close r)
  have "kept_alive k T0 t (s\<lparr>streams := f\<rparr>)" for f
    using assms(1) by (simp add: kept_alive_def)
  then show ?thesis
    using assms(1) Close by (simp add: on_close_def kept_alive_keep split: option.split)
next
  case (StreamError r)
  then show ?thesis
    using assms(1) by (simp add: on_stream_error_def kept_alive_keep split: option.split)
next
  case (Elapse d)
  then show ?thesis using assms(1,3) by (simp add: kept_alive_elapse)
qed

lemma resume_now [simp]:
  "now (fold (\<lambda>p. serve (p_rid p) t (p_range p)) ps s) = now s"
  by (induction ps arbitrary: s) simp_all

lemma step_now: "now (step ih e s) = now s + elapsed_of e"
proof (cases e)
  case (Request mg rng)
  then show ?thesis
    by (auto simp: request_def suspend_def client_add_def Let_def split: option.split)
next
  case (Ready u fs)
  then show ?thesis by (simp add: torrent_ready_def)
next
  case (TorrentError u)
  have "now ((on_error u ^^ n) s) = now s" for n
    by (induction n) (simp_all add: on_error_def torrent_destroy_def Let_def)
  then show ?thesis using TorrentError by (simp add: torrent_error_def)
next
  case (Close r)
  then show ?thesis by (simp add: on_close_def split: option.split)
next
  case (StreamError r)
  then show ?thesis by (simp add: on_stream_error_def split: option.split)
next
  case (Elapse d)
  then show ?thesis by (simp add: elapse_def Let_def)
qed

lemma kept_alive_run:
  assumes "kept_alive k T0 t s" and "TorrentError t \<notin> set evs"
    and "now s + elapsed evs < T0 + TORRENT_TTL"
  shows "kept_alive k T0 t (run ih evs s)"
  using assms unfolding run_def
proof (induction evs arbitrary: s)
  case Nil
  then show ?case by simp
next
  case (Cons e evs)
  have 1: "kept_alive k T0 t (step ih e s)"
    using Cons.prems by (intro kept_alive_step) (auto simp: elapsed_def)
  have 2: "now (step ih e s) + elapsed evs < T0 + TORRENT_TTL"
    using Cons.prems(3) by (simp add: step_now elapsed_def)
  show ?case using Cons.IH [OF 1 _ 2] Cons.prems(2) by simp
qed

lemma client_get_unique:
  assumes "client_ok s" and "t \<in> set (client_torrents s)" and "infoHash (heap s t) = ih m"
  shows "client_get ih m s = Some t"
proof -
  have d: "distinct (map (\<lambda>u. infoHash (heap s u)) (client_torrents s))"
    using assms(1) by (simp add: client_ok_def)
  have "find (\<lambda>u. h u = h t) xs = Some t" if "distinct (map h xs)" "t \<in> set xs"
    for h :: "nat \<Rightarrow> string" and xs
    using that by (induction xs) (auto simp: image_iff)
  from this [OF d assms(2)] show ?thesis
    by (simp add: client_get_def assms(3))
qed

text \<open>
  The close listener cancels the timer of the entry: when no other pending timer holds the
  session, the one it arms is the only one.
\<close>

lemma close_listener_cancels:
  assumes "streams s r = Some st" and "activeTorrents s (infoHash (heap s (source st))) = Some e"
  shows "timers (on_close r s)
           = filter (\<lambda>tm. timer_id tm \<noteq> timeout e) (timers s)
             @ [\<lparr>timer_id = next_timer s, deadline = now s + TORRENT_TTL, target = source st\<rparr>]"
  using assms by (simp add: on_close_def keepTorrentAlive_def clearTimeout_def Let_def)

lemma disconnect_keeps_session:
  assumes "streams s r = Some st" and "m \<noteq> []" and "client_get ih m s = Some (source st)"
    and "client_ok s" and "no_stale (ih m) s"
    and "TorrentError (source st) \<notin> set evs" and "elapsed evs < TORRENT_TTL"
  defines "s' \<equiv> run ih evs (on_close r s)"
  shows "key_timers (ih m) (on_close r s)
           = [\<lparr>timer_id = next_timer s, deadline = now s + TORRENT_TTL, target = source st\<rparr>]"
    and "\<not> destroyed (heap s' (source st))"
    and "client_get ih m s' = Some (source st)"
    and "add_calls (request ih (Some m) rng s') = add_calls s'"
proof -
  let ?t = "source st"
  let ?s0 = "s\<lparr>streams := (streams s)(r \<mapsto> st\<lparr>stream_destroyed := True\<rparr>)\<rparr>"
  have c: "on_close r s = keepTorrentAlive ?t ?s0"
    using assms(1) by (simp add: on_close_def)
  have hash: "infoHash (heap s ?t) = ih m"
    using assms(3) by (rule client_get_hash)
  have on: "?t \<in> set (client_torrents s)"
    using assms(3) by (rule client_get_on_list)
  have ns0: "no_stale (ih m) ?s0"
    using assms(5) by (simp add: no_stale_def key_timers_def)
  have h0: "infoHash (heap ?s0 ?t) = ih m"
    using hash by simp
  note k = keepTorrentAlive_single_timer [OF ns0 h0]
  show kt: "key_timers (ih m) (on_close r s)
           = [\<lparr>timer_id = next_timer s, deadline = now s + TORRENT_TTL, target = source st\<rparr>]"
    using k(1) by (simp add: c)
  have alive: "kept_alive (ih m) (now s) ?t (on_close r s)"
  proof -
    have "\<forall>tm \<in> set (timers (on_close r s)). target tm = ?t \<longrightarrow>
        now s + TORRENT_TTL \<le> deadline tm"
    proof (intro ballI impI)
      fix tm assume tm: "tm \<in> set (timers (on_close r s))" "target tm = ?t"
      then have "tm \<in> set (key_timers (ih m) (on_close r s))"
        using hash by (simp add: key_timers_def c)
      then show "now s + TORRENT_TTL \<le> deadline tm"
        by (simp add: kt)
    qed
    then show ?thesis
      using on hash assms(4) by (auto simp: kept_alive_def c client_ok_def list_all_iff)
  qed
  have "now (on_close r s) + elapsed evs < now s + TORRENT_TTL"
    using assms(7) by (simp add: c)
  with alive assms(6) have ka: "kept_alive (ih m) (now s) ?t s'"
    unfolding s'_def by (intro kept_alive_run)
  show "\<not> destroyed (heap s' ?t)"
    using ka by (simp add: kept_alive_def)
  have ok: "client_ok s'"
    unfolding s'_def c
    by (intro client_ok_run client_ok_keep) (rule client_ok_cong [OF assms(4)], simp_all)
  show g: "client_get ih m s' = Some ?t"
    using ka by (intro client_get_unique [OF ok]) (simp_all add: kept_alive_def)
  have "client_get ih m (s'\<lparr>next_rid := next_rid s' + 1\<rparr>) = Some ?t"
    using g by (simp add: client_get_def)
  then show "add_calls (request ih (Some m) rng s') = add_calls s'"
    using assms(2) by (simp add: request_def suspend_def Let_def)
qed

lemma disconnect_keeps_session_without_error:
  assumes "\<forall>e \<in> set evs0. \<not> is_error e"
    and "streams (run ih evs0 init) r = Some st" and "m \<noteq> []"
    and "client_get ih m (run ih evs0 init) = Some (source st)"
    and "TorrentError (source st) \<notin> set evs" and "elapsed evs < TORRENT_TTL"
  shows "\<not> destroyed (heap (run ih evs (on_close r (run ih evs0 init))) (source st))"
    and "client_get ih m (run ih evs (on_close r (run ih evs0 init))) = Some (source st)"
    and "add_calls (request ih (Some m) rng (run ih evs (on_close r (run ih evs0 init))))
           = add_calls (run ih evs (on_close r (run ih evs0 init)))"
  using disconnect_keeps_session [OF assms(2,3,4) client_ok_reachable
      no_stale_without_error [OF assms(1)] assms(5,6)]
  by simp_all

subsection \<open>A disconnect after a fatal error\<close>

text \<open>
  C7 says that after a client disconnects mid-stream the session stays in the cache and a
  later request for the same content reuses it. This does not hold of the code when an
  earlier session of the content has failed, for the reason C2 fails: the error listener
  leaves a timer behind. In the run below the third request streams from the second
  session, which the client holds, and its client goes away at 600500 ms. The close
  listener destroys the stream of that request and arms timer 3 for 1200500 ms, but timer
  1, which no entry records since the stale timer deleted the entry, stays pending. At
  601000 ms it fires and destroys the session, 500 ms after the disconnect; the request
  that follows finds nothing and a third session is created.
\<close>

theorem disconnect_then_stale_timer:
  "now (run (\<lambda>m. m) (take 10 disconnect_trace) init) = 600500
   \<and> streams (run (\<lambda>m. m) (take 9 disconnect_trace) init) 2
       = Some \<lparr>source = 1, stream_destroyed = False\<rparr>
   \<and> client_get (\<lambda>m. m) sample_magnet (run (\<lambda>m. m) (take 9 disconnect_trace) init) = Some 1
   \<and> streams (run (\<lambda>m. m) (take 10 disconnect_trace) init) 2
       = Some \<lparr>source = 1, stream_destroyed = True\<rparr>
   \<and> \<not> destroyed (heap (run (\<lambda>m. m) (take 10 disconnect_trace) init) 1)
   \<and> activeTorrents (run (\<lambda>m. m) (take 10 disconnect_trace) init) sample_magnet
       = Some \<lparr>torrent = 1, timeout = 3\<rparr>
   \<and> timers (run (\<lambda>m. m) (take 10 disconnect_trace) init)
       = [\<lparr>timer_id = 1, deadline = 601000, target = 1\<rparr>,
          \<lparr>timer_id = 3, deadline = 1200500, target = 1\<rparr>]
   \<and> add_calls (run (\<lambda>m. m) (take 10 disconnect_trace) init) = 2
   \<and> now (run (\<lambda>m. m) (take 11 disconnect_trace) init) = 601000
   \<and> destroyed (heap (run (\<lambda>m. m) (take 11 disconnect_trace) init) 1)
   \<and> activeTorrents (run (\<lambda>m. m) (take 11 disconnect_trace) init) sample_magnet = None
   \<and> client_get (\<lambda>m. m) sample_magnet (run (\<lambda>m. m) (take 11 disconnect_trace) init) = None
   \<and> add_calls (run (\<lambda>m. m) disconnect_trace init) = 3"
  by (simp add: disconnect_trace_def stale_timer_trace_def handler_defs)

end
